theory Spec2Isabelle
  imports Main
begin

section \<open>JavaScript values\<close>

text \<open>
  The proxy handles the result of \<^verbatim>\<open>JSON.parse\<close> as an untyped value (\<^verbatim>\<open>any\<close>).
  Numbers are integers here: token counts and the like. A number literal with a fraction
  or an exponent is outside the model.
\<close>

datatype json =
    JNull
  | JBool bool
  | JNum int
  | JStr string
  | JArr "json list"
  | JObj "(string \<times> json) list"

text \<open>
  Reading a property gives \<open>None\<close> for \<^verbatim>\<open>undefined\<close>. An object literal with a
  repeated key keeps the last value. The property names the proxy reads are plain words
  (never \<^verbatim>\<open>length\<close> or an index), so arrays and primitives have none of them.
  Reading a property of \<^verbatim>\<open>null\<close> throws; the functions below guard that case themselves.
\<close>

fun js_get :: "json \<Rightarrow> string \<Rightarrow> json option" where
  "js_get (JObj kvs) k = map_of (rev kvs) k"
| "js_get _ k = None"

text \<open>Optional chaining \<^verbatim>\<open>a?.k\<close>: \<^verbatim>\<open>undefined\<close> when \<^verbatim>\<open>a\<close> is nullish.\<close>

fun js_get_opt :: "json option \<Rightarrow> string \<Rightarrow> json option" where
  "js_get_opt None k = None"
| "js_get_opt (Some JNull) k = None"
| "js_get_opt (Some v) k = js_get v k"

fun truthy :: "json \<Rightarrow> bool" where
  "truthy JNull = False"
| "truthy (JBool b) = b"
| "truthy (JNum n) = (n \<noteq> 0)"
| "truthy (JStr s) = (s \<noteq> [])"
| "truthy (JArr xs) = True"
| "truthy (JObj kvs) = True"

fun truthy_opt :: "json option \<Rightarrow> bool" where
  "truthy_opt None = False"
| "truthy_opt (Some v) = truthy v"

fun js_typeof :: "json option \<Rightarrow> string" where
  "js_typeof None = ''undefined''"
| "js_typeof (Some JNull) = ''object''"
| "js_typeof (Some (JBool b)) = ''boolean''"
| "js_typeof (Some (JNum n)) = ''number''"
| "js_typeof (Some (JStr s)) = ''string''"
| "js_typeof (Some (JArr xs)) = ''object''"
| "js_typeof (Some (JObj kvs)) = ''object''"

text \<open>\<^verbatim>\<open>x || null\<close> and \<^verbatim>\<open>x ?? null\<close>.\<close>

fun or_null :: "json option \<Rightarrow> json" where
  "or_null None = JNull"
| "or_null (Some v) = (if truthy v then v else JNull)"

fun nullish_null :: "json option \<Rightarrow> json" where
  "nullish_null None = JNull"
| "nullish_null (Some v) = v"

section \<open>String primitives\<close>

text \<open>
  The white space that \<^verbatim>\<open>String.prototype.trim\<close> strips, among the code units
  below \<open>0x100\<close>: tab, line feed, vertical tab, form feed, carriage return, space and the
  no-break space.
\<close>

definition is_js_space :: "char \<Rightarrow> bool" where
  "is_js_space c \<longleftrightarrow> (of_char c :: nat) \<in> {9, 10, 11, 12, 13, 32, 160}"

definition js_trim :: "string \<Rightarrow> string" where
  "js_trim s = rev (dropWhile is_js_space (rev (dropWhile is_js_space s)))"

definition startsWith :: "string \<Rightarrow> string \<Rightarrow> bool" where
  "startsWith s p \<longleftrightarrow> take (length p) s = p"

text \<open>\<^verbatim>\<open>s.split("\n")\<close>: never empty; the last element is what follows the last line feed.\<close>

fun split_nl :: "string \<Rightarrow> string list" where
  "split_nl [] = [[]]"
| "split_nl (c # cs) =
     (if c = CHR 0x0A then [] # split_nl cs
      else (case split_nl cs of
              [] \<Rightarrow> [[c]]
            | part # parts \<Rightarrow> (c # part) # parts))"

section \<open>A reader for JSON texts\<close>

text \<open>
  The transcoders take the runtime's \<^verbatim>\<open>JSON.parse\<close> as a parameter \<open>parse\<close>
  (\<open>None\<close> where it throws). \<open>json_parse\<close> is a reader for the JSON grammar with integer
  number literals, used to run the transcoders on concrete lines. It is a scanner over
  the characters followed by a stack machine over the tokens.
\<close>

datatype token = TLBrace | TRBrace | TLBrack | TRBrack | TColon | TComma | TValue json

datatype lex_state =
    LIdle
  | LString string
  | LEscape string
  | LUnicode string nat nat
  | LMinus
  | LZero
  | LDigits bool nat
  | LLiteral string json

definition digit_of :: "char \<Rightarrow> nat option" where
  "digit_of c = (let n = (of_char c :: nat) in if 48 \<le> n \<and> n \<le> 57 then Some (n - 48) else None)"

definition hex_of :: "char \<Rightarrow> nat option" where
  "hex_of c = (let n = (of_char c :: nat) in
     if 48 \<le> n \<and> n \<le> 57 then Some (n - 48)
     else if 65 \<le> n \<and> n \<le> 70 then Some (n - 55)
     else if 97 \<le> n \<and> n \<le> 102 then Some (n - 87)
     else None)"

definition lex_idle :: "char \<Rightarrow> (lex_state \<times> token list) option" where
  "lex_idle c =
     (if c = CHR ''{'' then Some (LIdle, [TLBrace])
      else if c = CHR ''}'' then Some (LIdle, [TRBrace])
      else if c = CHR ''['' then Some (LIdle, [TLBrack])
      else if c = CHR '']'' then Some (LIdle, [TRBrack])
      else if c = CHR '':'' then Some (LIdle, [TColon])
      else if c = CHR '','' then Some (LIdle, [TComma])
      else if c = CHR 0x22 then Some (LString [], [])
      else if c = CHR ''-'' then Some (LMinus, [])
      else if c = CHR ''0'' then Some (LZero, [])
      else if c = CHR ''t'' then Some (LLiteral ''rue'' (JBool True), [])
      else if c = CHR ''f'' then Some (LLiteral ''alse'' (JBool False), [])
      else if c = CHR ''n'' then Some (LLiteral ''ull'' JNull, [])
      else if (of_char c :: nat) \<in> {32, 9, 10, 13} then Some (LIdle, [])
      else (case digit_of c of Some d \<Rightarrow> Some (LDigits False d, []) | None \<Rightarrow> None))"

definition emit_then :: "token \<Rightarrow> char \<Rightarrow> (lex_state \<times> token list) option" where
  "emit_then t c = (case lex_idle c of None \<Rightarrow> None | Some (st, ts) \<Rightarrow> Some (st, t # ts))"

fun lex_step :: "lex_state \<Rightarrow> char \<Rightarrow> (lex_state \<times> token list) option" where
  "lex_step LIdle c = lex_idle c"
| "lex_step (LString acc) c =
     (if c = CHR 0x22 then Some (LIdle, [TValue (JStr (rev acc))])
      else if c = CHR 0x5C then Some (LEscape acc, [])
      else if (of_char c :: nat) < 32 then None
      else Some (LString (c # acc), []))"
| "lex_step (LEscape acc) c =
     (if c = CHR 0x22 \<or> c = CHR 0x5C \<or> c = CHR ''/'' then Some (LString (c # acc), [])
      else if c = CHR ''b'' then Some (LString (CHR 0x08 # acc), [])
      else if c = CHR ''f'' then Some (LString (CHR 0x0C # acc), [])
      else if c = CHR ''n'' then Some (LString (CHR 0x0A # acc), [])
      else if c = CHR ''r'' then Some (LString (CHR 0x0D # acc), [])
      else if c = CHR ''t'' then Some (LString (CHR 0x09 # acc), [])
      else if c = CHR ''u'' then Some (LUnicode acc 0 0, [])
      else None)"
| "lex_step (LUnicode acc k v) c =
     (case hex_of c of
        None \<Rightarrow> None
      | Some h \<Rightarrow>
          (let v' = 16 * v + h in
           if k < 3 then Some (LUnicode acc (Suc k) v', [])
           else if v' < 256 then Some (LString (char_of v' # acc), [])
           else None))"
| "lex_step LMinus c =
     (case digit_of c of
        None \<Rightarrow> None
      | Some d \<Rightarrow> if d = 0 then Some (LZero, []) else Some (LDigits True d, []))"
| "lex_step LZero c = emit_then (TValue (JNum 0)) c"
| "lex_step (LDigits neg n) c =
     (case digit_of c of
        Some d \<Rightarrow> Some (LDigits neg (10 * n + d), [])
      | None \<Rightarrow> emit_then (TValue (JNum (if neg then - int n else int n))) c)"
| "lex_step (LLiteral [] v) c = None"
| "lex_step (LLiteral (x # xs) v) c =
     (if c \<noteq> x then None
      else if xs = [] then Some (LIdle, [TValue v])
      else Some (LLiteral xs v, []))"

fun lex :: "lex_state \<Rightarrow> string \<Rightarrow> token list option" where
  "lex st [] =
     (case st of
        LIdle \<Rightarrow> Some []
      | LZero \<Rightarrow> Some [TValue (JNum 0)]
      | LDigits neg n \<Rightarrow> Some [TValue (JNum (if neg then - int n else int n))]
      | _ \<Rightarrow> None)"
| "lex st (c # cs) =
     (case lex_step st c of
        None \<Rightarrow> None
      | Some (st', ts) \<Rightarrow> map_option ((@) ts) (lex st' cs))"

datatype frame = FArr "json list" | FObj "(string \<times> json) list" string

datatype pmode = PValue | PValueOrClose | PKeyOrClose | PKey | PColon | PAfter | PEnd json

text \<open>A finished value goes to the innermost open container, or ends the text.\<close>

fun put :: "json \<Rightarrow> frame list \<Rightarrow> pmode \<times> frame list" where
  "put v [] = (PEnd v, [])"
| "put v (FArr xs # st) = (PAfter, FArr (v # xs) # st)"
| "put v (FObj kvs k # st) = (PAfter, FObj ((k, v) # kvs) k # st)"

fun parse_step :: "pmode \<Rightarrow> frame list \<Rightarrow> token \<Rightarrow> (pmode \<times> frame list) option" where
  "parse_step PValue st (TValue v) = Some (put v st)"
| "parse_step PValue st TLBrack = Some (PValueOrClose, FArr [] # st)"
| "parse_step PValue st TLBrace = Some (PKeyOrClose, FObj [] [] # st)"
| "parse_step PValueOrClose (FArr xs # st) TRBrack = Some (put (JArr []) st)"
| "parse_step PValueOrClose st (TValue v) = Some (put v st)"
| "parse_step PValueOrClose st TLBrack = Some (PValueOrClose, FArr [] # st)"
| "parse_step PValueOrClose st TLBrace = Some (PKeyOrClose, FObj [] [] # st)"
| "parse_step PKeyOrClose (FObj kvs k # st) TRBrace = Some (put (JObj []) st)"
| "parse_step PKeyOrClose (FObj kvs k # st) (TValue (JStr k')) = Some (PColon, FObj kvs k' # st)"
| "parse_step PKey (FObj kvs k # st) (TValue (JStr k')) = Some (PColon, FObj kvs k' # st)"
| "parse_step PColon st TColon = Some (PValue, st)"
| "parse_step PAfter (FArr xs # st) TComma = Some (PValue, FArr xs # st)"
| "parse_step PAfter (FObj kvs k # st) TComma = Some (PKey, FObj kvs k # st)"
| "parse_step PAfter (FArr xs # st) TRBrack = Some (put (JArr (rev xs)) st)"
| "parse_step PAfter (FObj kvs k # st) TRBrace = Some (put (JObj (rev kvs)) st)"
| "parse_step _ _ _ = None"

fun parse_tokens :: "pmode \<Rightarrow> frame list \<Rightarrow> token list \<Rightarrow> json option" where
  "parse_tokens m st [] = (case m of PEnd v \<Rightarrow> Some v | _ \<Rightarrow> None)"
| "parse_tokens m st (t # ts) =
     (case parse_step m st t of
        None \<Rightarrow> None
      | Some (m', st') \<Rightarrow> parse_tokens m' st' ts)"

definition json_parse :: "string \<Rightarrow> json option" where
  "json_parse s = (case lex LIdle s of None \<Rightarrow> None | Some ts \<Rightarrow> parse_tokens PValue [] ts)"

section \<open>Event classifier\<close>

text \<open>\<^verbatim>\<open>!data || typeof data !== "object"\<close>\<close>

definition not_an_object :: "json \<Rightarrow> bool" where
  "not_an_object data \<longleftrightarrow> \<not> truthy data \<or> js_typeof (Some data) \<noteq> ''object''"

text \<open>
  \<^verbatim>\<open>extractText\<close> is declared to return \<^verbatim>\<open>string | null\<close>, but \<^verbatim>\<open>data\<close> is untyped: the
  first-party branches return whatever truthy value sits in the content field.
\<close>

definition extractText :: "json \<Rightarrow> json" where
  "extractText data =
     (if not_an_object data then JNull
      else if js_get data ''part_kind'' = Some (JStr ''user-prompt'') then JNull
      else if js_get data ''event_kind'' = Some (JStr ''part_start'')
              \<and> js_get_opt (js_get data ''part'') ''part_kind'' = Some (JStr ''text'')
        then or_null (js_get_opt (js_get data ''part'') ''content'')
      else if js_get data ''event_kind'' = Some (JStr ''part_delta'')
              \<and> js_get_opt (js_get data ''delta'') ''part_delta_kind'' = Some (JStr ''text'')
        then or_null (js_get_opt (js_get data ''delta'') ''content_delta'')
      else if js_typeof (js_get data ''text_delta'') = ''string'' \<and> truthy_opt (js_get data ''text_delta'')
        then nullish_null (js_get data ''text_delta'')
      else if js_get data ''type'' = Some (JStr ''content_block_delta'')
              \<and> js_get_opt (js_get data ''delta'') ''type'' = Some (JStr ''text_delta'')
        then nullish_null (js_get_opt (js_get data ''delta'') ''text'')
      else if js_typeof (js_get_opt (js_get data ''delta'') ''text'') = ''string''
        then nullish_null (js_get_opt (js_get data ''delta'') ''text'')
      else JNull)"

definition isStreamEnd :: "json \<Rightarrow> bool" where
  "isStreamEnd data =
     (if not_an_object data then False
      else if js_typeof (js_get data ''input_tokens'') = ''number''
              \<or> js_typeof (js_get data ''output_tokens'') = ''number'' then True
      else if js_get data ''type'' = Some (JStr ''message_stop'') then True
      else if js_get data ''type'' = Some (JStr ''message_delta'')
              \<and> truthy_opt (js_get_opt (js_get data ''delta'') ''stop_reason'') then True
      else if js_get data ''done'' = Some (JBool True) then True
      else if js_get data ''type'' = Some (JStr ''end'') \<or> js_get data ''type'' = Some (JStr ''stop'') then True
      else if js_get data ''event'' = Some (JStr ''done'') \<or> js_get data ''event'' = Some (JStr ''end'') then True
      else False)"

section \<open>Chat-completions chunk transcoder\<close>

text \<open>
  What \<^verbatim>\<open>controller.enqueue\<close> receives. Every chunk of one call also carries the same
  id, timestamp and model, which are left out.
\<close>

datatype sse_chunk =
    ContentDelta json
  | FinishStop
  | DoneTerminator

text \<open>
  The head of the loop body shared by all transcoders: the payload of a \<^verbatim>\<open>data: \<close>
  line, \<open>None\<close> where the loop continues with the next line.
\<close>

definition data_payload :: "string \<Rightarrow> string option" where
  "data_payload line =
     (let trimmed = js_trim line in
      if trimmed = [] \<or> startsWith trimmed '':'' then None
      else if \<not> startsWith trimmed ''data: '' then None
      else Some (js_trim (drop 6 trimmed)))"

definition process_line :: "(string \<Rightarrow> json option) \<Rightarrow> string \<Rightarrow> bool \<Rightarrow> sse_chunk list \<times> bool" where
  "process_line parse line sentDone =
     (case data_payload line of
        None \<Rightarrow> ([], sentDone)
      | Some jsonStr \<Rightarrow>
          if jsonStr = ''[DONE]'' then
            (if \<not> sentDone then ([DoneTerminator], True) else ([], sentDone))
          else
            (case parse jsonStr of
               None \<Rightarrow> ([], sentDone)
             | Some data \<Rightarrow>
                 (let textContent = extractText data;
                      out1 = (if truthy textContent then [ContentDelta textContent] else [])
                  in if \<not> sentDone \<and> isStreamEnd data
                     then (out1 @ [FinishStop, DoneTerminator], True)
                     else (out1, sentDone))))"

fun processSSELines :: "(string \<Rightarrow> json option) \<Rightarrow> string list \<Rightarrow> bool \<Rightarrow> sse_chunk list \<times> bool" where
  "processSSELines parse [] sentDone = ([], sentDone)"
| "processSSELines parse (line # lines) sentDone =
     (let (out1, d1) = process_line parse line sentDone;
          (out2, d2) = processSSELines parse lines d1
      in (out1 @ out2, d2))"

text \<open>
  The per-call closure state of \<^verbatim>\<open>handleStreamingCompletion\<close>. A chunk is the text that
  the streaming \<^verbatim>\<open>TextDecoder\<close> yields for one chunk of the backend body.
\<close>

record stream_state =
  buffer :: string
  doneSent :: bool

definition init_stream :: stream_state where
  "init_stream = \<lparr>buffer = [], doneSent = False\<rparr>"

text \<open>\<^verbatim>\<open>parts.pop() || ""\<close> is the last part: \<^verbatim>\<open>split\<close> never returns an empty array.\<close>

definition transform :: "(string \<Rightarrow> json option) \<Rightarrow> string \<Rightarrow> stream_state \<Rightarrow> sse_chunk list \<times> stream_state" where
  "transform parse chunk st =
     (let parts = split_nl (buffer st @ chunk);
          (out, d) = processSSELines parse (butlast parts) (doneSent st)
      in (out, \<lparr>buffer = last parts, doneSent = d\<rparr>))"

definition flush :: "(string \<Rightarrow> json option) \<Rightarrow> stream_state \<Rightarrow> sse_chunk list" where
  "flush parse st =
     (let (out, d) = (if js_trim (buffer st) \<noteq> []
                      then processSSELines parse [buffer st] (doneSent st)
                      else ([], doneSent st))
      in out @ (if \<not> d then [FinishStop, DoneTerminator] else []))"

text \<open>\<^verbatim>\<open>pipeThrough\<close>: \<open>transform\<close> on every chunk in order, \<open>flush\<close> when the body ends.\<close>

fun transform_all :: "(string \<Rightarrow> json option) \<Rightarrow> string list \<Rightarrow> stream_state \<Rightarrow> sse_chunk list \<times> stream_state" where
  "transform_all parse [] st = ([], st)"
| "transform_all parse (chunk # chunks) st =
     (let (out1, st1) = transform parse chunk st;
          (out2, st2) = transform_all parse chunks st1
      in (out1 @ out2, st2))"

definition stream_completion :: "(string \<Rightarrow> json option) \<Rightarrow> string list \<Rightarrow> sse_chunk list" where
  "stream_completion parse chunks =
     (let (out, st) = transform_all parse chunks init_stream in out @ flush parse st)"

text \<open>
  The lines the transcoder handed to \<^verbatim>\<open>processSSELines\<close> over a whole body: the complete
  lines of every \<open>transform\<close>, and the fragment left in the buffer at the end.
\<close>

fun reassemble :: "string list \<Rightarrow> string \<Rightarrow> string list \<times> string" where
  "reassemble [] buf = ([], buf)"
| "reassemble (chunk # chunks) buf =
     (let parts = split_nl (buf @ chunk);
          (ls, b) = reassemble chunks (last parts)
      in (butlast parts @ ls, b))"

subsection \<open>Non-streaming aggregate\<close>

function show_nat :: "nat \<Rightarrow> string" where
  "show_nat n = (if n < 10 then [char_of (48 + n)] else show_nat (n div 10) @ [char_of (48 + n mod 10)])"
  by pat_completeness auto
termination
  by (relation "measure id") auto

declare show_nat.simps [simp del]

definition show_int :: "int \<Rightarrow> string" where
  "show_int i = (if i < 0 then CHR ''-'' # show_nat (nat (- i)) else show_nat (nat i))"

fun js_join :: "string list \<Rightarrow> string" where
  "js_join [] = []"
| "js_join [x] = x"
| "js_join (x # y # ys) = x @ '','' @ js_join (y # ys)"

text \<open>
  The string that \<^verbatim>\<open>content += text\<close> appends: the text itself, or what JavaScript's
  string conversion makes of another truthy value (a number in decimal, which is what
  the runtime prints below \<open>10^21\<close>).
\<close>

fun js_to_string :: "json \<Rightarrow> string" where
  "js_to_string JNull = ''null''"
| "js_to_string (JBool b) = (if b then ''true'' else ''false'')"
| "js_to_string (JNum n) = show_int n"
| "js_to_string (JStr s) = s"
| "js_to_string (JArr xs) = js_join (map (\<lambda>x. if x = JNull then [] else js_to_string x) xs)"
| "js_to_string (JObj kvs) = ''[object Object]''"

fun collect_text :: "(string \<Rightarrow> json option) \<Rightarrow> string list \<Rightarrow> string \<Rightarrow> string" where
  "collect_text parse [] content = content"
| "collect_text parse (line # lines) content =
     (let trimmed = js_trim line in
      if \<not> startsWith trimmed ''data: '' then collect_text parse lines content
      else let jsonStr = js_trim (drop 6 trimmed) in
        if jsonStr = ''[DONE]'' then collect_text parse lines content
        else (case parse jsonStr of
                None \<Rightarrow> collect_text parse lines content
              | Some data \<Rightarrow>
                  (let text = extractText data in
                   if truthy text then collect_text parse lines (content @ js_to_string text)
                   else collect_text parse lines content)))"

text \<open>\<^verbatim>\<open>rovoResp.text()\<close> is the whole body, whatever chunks it arrived in.\<close>

definition aggregate_content :: "(string \<Rightarrow> json option) \<Rightarrow> string list \<Rightarrow> string" where
  "aggregate_content parse chunks = collect_text parse (split_nl (concat chunks)) []"

section \<open>Response-lifecycle event transcoder\<close>

text \<open>\<^verbatim>\<open>handleStreamingResponsesViaCompletions\<close>, the handler behind \<^verbatim>\<open>/v1/responses\<close>.\<close>

datatype js_error = Error string | TypeError string

record usage =
  input_tokens :: json
  output_tokens :: json
  total_tokens :: json

datatype lifecycle =
    ResponseCreated
  | ResponseInProgress
  | OutputItemAdded
  | ContentPartAdded
  | OutputTextDelta json
  | OutputTextDone string
  | ContentPartDone string
  | OutputItemDone string
  | ResponseCompleted string usage

text \<open>An emitted event is its sequence number and its type with the payload.\<close>

record resp_state =
  rbuffer :: string
  fullText :: string
  preambleSent :: bool
  seqNum :: nat
  usageData :: usage
  emitted :: "(nat \<times> lifecycle) list"

definition init_resp :: resp_state where
  "init_resp = \<lparr>rbuffer = [], fullText = [], preambleSent = False, seqNum = 0,
     usageData = \<lparr>input_tokens = JNum 0, output_tokens = JNum 0, total_tokens = JNum 0\<rparr>,
     emitted = []\<rparr>"

definition emit :: "lifecycle \<Rightarrow> resp_state \<Rightarrow> resp_state" where
  "emit ev st = st\<lparr>emitted := emitted st @ [(seqNum st, ev)], seqNum := Suc (seqNum st)\<rparr>"

definition sendPreamble :: "resp_state \<Rightarrow> resp_state" where
  "sendPreamble st =
     (if preambleSent st then st
      else emit ContentPartAdded (emit OutputItemAdded (emit ResponseInProgress
             (emit ResponseCreated (st\<lparr>preambleSent := True\<rparr>)))))"

text \<open>\<^verbatim>\<open>x || 0\<close>, and \<^verbatim>\<open>a + b\<close>: a sum of numbers, or a concatenation once an operand is not one.\<close>

fun or_zero :: "json option \<Rightarrow> json" where
  "or_zero None = JNum 0"
| "or_zero (Some v) = (if truthy v then v else JNum 0)"

fun to_number :: "json \<Rightarrow> int option" where
  "to_number JNull = Some 0"
| "to_number (JBool b) = Some (if b then 1 else 0)"
| "to_number (JNum n) = Some n"
| "to_number _ = None"

definition js_plus :: "json \<Rightarrow> json \<Rightarrow> json" where
  "js_plus a b =
     (case (to_number a, to_number b) of
        (Some m, Some n) \<Rightarrow> JNum (m + n)
      | _ \<Rightarrow> JStr (js_to_string a @ js_to_string b))"

definition emit_text :: "json \<Rightarrow> resp_state \<Rightarrow> resp_state" where
  "emit_text text st =
     (if truthy text
      then (let st1 = sendPreamble st;
                st2 = st1\<lparr>fullText := fullText st1 @ js_to_string text\<rparr>
            in emit (OutputTextDelta text) st2)
      else st)"

text \<open>
  The body of the loop in \<open>transform\<close>. \<^verbatim>\<open>data.input_tokens\<close> is read outside any
  \<^verbatim>\<open>try\<close>: on the value \<^verbatim>\<open>null\<close> it throws, and the error leaves \<open>transform\<close>.
\<close>

definition resp_line :: "(string \<Rightarrow> json option) \<Rightarrow> string \<Rightarrow> resp_state \<Rightarrow> (js_error \<times> resp_state) + resp_state" where
  "resp_line parse line st =
     (case data_payload line of
        None \<Rightarrow> Inr st
      | Some jsonStr \<Rightarrow>
          if jsonStr = ''[DONE]'' then Inr st
          else (case parse jsonStr of
                  None \<Rightarrow> Inr st
                | Some data \<Rightarrow>
                    if data = JNull then Inl (TypeError ''null is not an object'', st)
                    else
                      (let st1 = (if js_typeof (js_get data ''input_tokens'') = ''number''
                                  then st\<lparr>usageData :=
                                         \<lparr>input_tokens = or_zero (js_get data ''input_tokens''),
                                          output_tokens = or_zero (js_get data ''output_tokens''),
                                          total_tokens = js_plus (or_zero (js_get data ''input_tokens''))
                                                                 (or_zero (js_get data ''output_tokens''))\<rparr>\<rparr>
                                  else st)
                       in Inr (emit_text (extractText data) st1))))"

fun resp_lines :: "(string \<Rightarrow> json option) \<Rightarrow> string list \<Rightarrow> resp_state \<Rightarrow> (js_error \<times> resp_state) + resp_state" where
  "resp_lines parse [] st = Inr st"
| "resp_lines parse (line # lines) st =
     (case resp_line parse line st of
        Inl e \<Rightarrow> Inl e
      | Inr st1 \<Rightarrow> resp_lines parse lines st1)"

definition resp_transform :: "(string \<Rightarrow> json option) \<Rightarrow> string \<Rightarrow> resp_state \<Rightarrow> (js_error \<times> resp_state) + resp_state" where
  "resp_transform parse chunk st =
     (let parts = split_nl (rbuffer st @ chunk)
      in resp_lines parse (butlast parts) (st\<lparr>rbuffer := last parts\<rparr>))"

definition resp_flush :: "(string \<Rightarrow> json option) \<Rightarrow> resp_state \<Rightarrow> resp_state" where
  "resp_flush parse st =
     (let trimmed = js_trim (rbuffer st);
          st1 = (if trimmed \<noteq> [] \<and> startsWith trimmed ''data: ''
                 then (let jsonStr = js_trim (drop 6 trimmed) in
                       if jsonStr \<noteq> ''[DONE]''
                       then (case parse jsonStr of
                               None \<Rightarrow> st
                             | Some data \<Rightarrow> emit_text (extractText data) st)
                       else st)
                 else st)
      in if preambleSent st1
         then emit (ResponseCompleted (fullText st1) (usageData st1))
                (emit (OutputItemDone (fullText st1))
                  (emit (ContentPartDone (fullText st1))
                    (emit (OutputTextDone (fullText st1)) st1)))
         else st1)"

text \<open>
  \<^verbatim>\<open>pipeThrough\<close>: an error thrown by \<open>transform\<close> errors the stream, and \<open>flush\<close> is
  not called. \<open>Inl\<close> carries the error and the state it left behind.
\<close>

fun resp_transform_all :: "(string \<Rightarrow> json option) \<Rightarrow> string list \<Rightarrow> resp_state \<Rightarrow> (js_error \<times> resp_state) + resp_state" where
  "resp_transform_all parse [] st = Inr st"
| "resp_transform_all parse (chunk # chunks) st =
     (case resp_transform parse chunk st of
        Inl e \<Rightarrow> Inl e
      | Inr st1 \<Rightarrow> resp_transform_all parse chunks st1)"

definition stream_responses :: "(string \<Rightarrow> json option) \<Rightarrow> string list \<Rightarrow> (js_error \<times> resp_state) + resp_state" where
  "stream_responses parse chunks =
     (case resp_transform_all parse chunks init_resp of
        Inl e \<Rightarrow> Inl e
      | Inr st \<Rightarrow> Inr (resp_flush parse st))"

text \<open>The events of a call, whether its stream closed or was errored.\<close>

fun events_of :: "(js_error \<times> resp_state) + resp_state \<Rightarrow> lifecycle list" where
  "events_of (Inl (e, st)) = map snd (emitted st)"
| "events_of (Inr st) = map snd (emitted st)"

section \<open>Backend session driver\<close>

text \<open>
  The backend is outside the proxy. It is a parameter: a function from the calls made so
  far, the latest last, to the reply to the latest call and the time that call took.
  \<open>NetworkError\<close> is a \<^verbatim>\<open>fetch\<close> that rejects; a response has a status and a body, given as
  the text of its chunks, or no body.
\<close>

datatype call = SetChatMessage string | SessionsCreate | StreamChat

datatype fetch_result = NetworkError string | HttpResponse nat "string list option"

record reply =
  outcome :: fetch_result
  elapsed :: nat

record world =
  history :: "call list"
  now :: nat

definition fetch :: "(call list \<Rightarrow> reply) \<Rightarrow> call \<Rightarrow> world \<Rightarrow> fetch_result \<times> world" where
  "fetch backend c w =
     (let r = backend (history w @ [c])
      in (outcome r, \<lparr>history = history w @ [c], now = now w + elapsed r\<rparr>))"

text \<open>\<^verbatim>\<open>signal: AbortSignal.timeout(ms)\<close>: a call that takes longer is aborted and rejects.\<close>

definition fetch_timeout :: "(call list \<Rightarrow> reply) \<Rightarrow> call \<Rightarrow> nat \<Rightarrow> world \<Rightarrow> fetch_result \<times> world" where
  "fetch_timeout backend c ms w =
     (let r = backend (history w @ [c])
      in if elapsed r > ms
         then (NetworkError ''The operation timed out.'', \<lparr>history = history w @ [c], now = now w + ms\<rparr>)
         else (outcome r, \<lparr>history = history w @ [c], now = now w + elapsed r\<rparr>))"

definition sleep :: "nat \<Rightarrow> world \<Rightarrow> world" where
  "sleep ms w = w\<lparr>now := now w + ms\<rparr>"

text \<open>\<^verbatim>\<open>resp.ok\<close>\<close>

definition ok :: "nat \<Rightarrow> bool" where
  "ok status \<longleftrightarrow> 200 \<le> status \<and> status \<le> 299"

definition setMessage :: "(call list \<Rightarrow> reply) \<Rightarrow> string \<Rightarrow> world \<Rightarrow> bool \<times> world" where
  "setMessage backend prompt w =
     (case fetch backend (SetChatMessage prompt) w of
        (NetworkError e, w') \<Rightarrow> (False, w')
      | (HttpResponse status body, w') \<Rightarrow> (ok status, w'))"

text \<open>
  The polling loop of \<^verbatim>\<open>waitForAgentIdle\<close>, with \<open>start\<close> the time it was entered. Every
  round that does not return sleeps 1500 ms, so the loop ends.
\<close>

function wait_poll :: "(call list \<Rightarrow> reply) \<Rightarrow> nat \<Rightarrow> nat \<Rightarrow> world \<Rightarrow> world" where
  "wait_poll backend start maxWaitMs w =
     (if now w - start < maxWaitMs then
        (case fetch_timeout backend SessionsCreate 5000 w of
           (HttpResponse status body, w') \<Rightarrow>
             if ok status then w' else wait_poll backend start maxWaitMs (sleep 1500 w')
         | (NetworkError e, w') \<Rightarrow> wait_poll backend start maxWaitMs (sleep 1500 w'))
      else w)"
  by pat_completeness auto
termination
  by (relation "measure (\<lambda>(backend, start, maxWaitMs, w). start + maxWaitMs - now w)")
     (auto simp: fetch_timeout_def sleep_def Let_def split: if_splits)

declare wait_poll.simps [simp del]

definition waitForAgentIdle :: "(call list \<Rightarrow> reply) \<Rightarrow> nat \<Rightarrow> world \<Rightarrow> world" where
  "waitForAgentIdle backend maxWaitMs w = wait_poll backend (now w) maxWaitMs w"

text \<open>
  The retry loop of \<^verbatim>\<open>sendAndStream\<close> from attempt \<open>attempt\<close> on. \<open>Inl\<close> is a thrown error,
  \<open>Inr\<close> the response of \<^verbatim>\<open>stream_chat\<close> with its status and body. A \<^verbatim>\<open>fetch\<close> of
  \<^verbatim>\<open>stream_chat\<close> that rejects is not caught here.
\<close>

function send_attempts :: "(call list \<Rightarrow> reply) \<Rightarrow> string \<Rightarrow> nat \<Rightarrow> nat \<Rightarrow> world
    \<Rightarrow> (js_error + nat \<times> string list option) \<times> world" where
  "send_attempts backend prompt maxRetries attempt w =
     (if attempt < maxRetries then
        (let w1 = (if attempt > 0 then waitForAgentIdle backend 30000 w else w);
             (msgOk, w2) = setMessage backend prompt w1
         in if \<not> msgOk then
              (if attempt < maxRetries - 1
               then send_attempts backend prompt maxRetries (Suc attempt) (waitForAgentIdle backend 15000 w2)
               else (Inl (Error ''Failed to send message to Rovo Dev after retries''), w2))
            else
              (case fetch backend StreamChat w2 of
                 (NetworkError e, w3) \<Rightarrow> (Inl (TypeError e), w3)
               | (HttpResponse status body, w3) \<Rightarrow>
                   if ok status then (Inr (status, body), w3)
                   else if status = 409 then send_attempts backend prompt maxRetries (Suc attempt) w3
                   else (Inr (status, body), w3)))
      else (Inl (Error ''Rovo Dev agent remained busy after all retries''), w))"
  by pat_completeness auto
termination
  by (relation "measure (\<lambda>(backend, prompt, maxRetries, attempt, w). maxRetries - attempt)") auto

declare send_attempts.simps [simp del]

definition sendAndStream :: "(call list \<Rightarrow> reply) \<Rightarrow> string \<Rightarrow> nat \<Rightarrow> world
    \<Rightarrow> (js_error + nat \<times> string list option) \<times> world" where
  "sendAndStream backend prompt maxRetries w = send_attempts backend prompt maxRetries 0 w"

subsection \<open>Handlers\<close>

text \<open>
  What a handler returns to the client: a JSON error with its status, message and type,
  the transcoded stream of a streaming call, or the message content of a non-streaming
  one. The handlers start from the flattened prompt and call \<^verbatim>\<open>sendAndStream\<close> with its
  default of 4 attempts.
\<close>

datatype client_response =
    JsonError nat string string
  | EventStream "sse_chunk list"
  | ChatCompletion string

fun message :: "js_error \<Rightarrow> string" where
  "message (Error m) = m"
| "message (TypeError m) = m"

text \<open>\<^verbatim>\<open>e?.message || "Failed to communicate with Rovo Dev."\<close>\<close>

definition proxy_error :: "js_error \<Rightarrow> client_response" where
  "proxy_error e =
     JsonError 502 (if message e \<noteq> [] then message e else ''Failed to communicate with Rovo Dev.'')
       ''proxy_error''"

definition status_error :: "nat \<Rightarrow> client_response" where
  "status_error status = JsonError 502 (''Rovo Dev stream_chat returned '' @ show_nat status) ''proxy_error''"

definition handleStreamingCompletion :: "(call list \<Rightarrow> reply) \<Rightarrow> (string \<Rightarrow> json option) \<Rightarrow> string \<Rightarrow> world
    \<Rightarrow> client_response \<times> world" where
  "handleStreamingCompletion backend parse prompt w =
     (case sendAndStream backend prompt 4 w of
        (Inl e, w') \<Rightarrow> (proxy_error e, w')
      | (Inr (status, body), w') \<Rightarrow>
          (case body of
             None \<Rightarrow> (status_error status, w')
           | Some chunks \<Rightarrow>
               if \<not> ok status then (status_error status, w')
               else (EventStream (stream_completion parse chunks), w')))"

definition handleNonStreamingCompletion :: "(call list \<Rightarrow> reply) \<Rightarrow> (string \<Rightarrow> json option) \<Rightarrow> string \<Rightarrow> world
    \<Rightarrow> client_response \<times> world" where
  "handleNonStreamingCompletion backend parse prompt w =
     (case sendAndStream backend prompt 4 w of
        (Inl e, w') \<Rightarrow> (proxy_error e, w')
      | (Inr (status, body), w') \<Rightarrow>
          if \<not> ok status then (status_error status, w')
          else (ChatCompletion (aggregate_content parse (case body of None \<Rightarrow> [] | Some chunks \<Rightarrow> chunks)), w'))"

section \<open>Request serialization queue\<close>

text \<open>
  \<^verbatim>\<open>enqueue(fn)\<close> replaces the global \<^verbatim>\<open>requestQueue\<close> by
  \<^verbatim>\<open>requestQueue.then(() => fn().then(resolve, reject)).catch(() => {})\<close>. The callback
  of \<^verbatim>\<open>then\<close> runs once the promise it was chained on is fulfilled, and the new promise
  is fulfilled once \<^verbatim>\<open>fn()\<close> has settled, with either outcome. Promise 0 is the initial
  \<^verbatim>\<open>Promise.resolve()\<close>; promise \<open>k + 1\<close> is the one the \<open>k\<close>-th call of \<^verbatim>\<open>enqueue\<close>
  stored.

  A slot is one call of \<^verbatim>\<open>enqueue\<close>: the promise it read from \<^verbatim>\<open>requestQueue\<close>, the
  backend operations its thunk performs, in order, with what the thunk settles with, how
  many of them it has performed, and what the caller's promise has been settled with.
  Thunks are asynchronous: between two operations of one thunk anything else may happen.
\<close>

datatype slot_status = Waiting | Running | Settled

record ('a, 'r) slot =
  chained_on :: nat
  program :: "'a list"
  result :: 'r
  performed :: nat
  stage :: slot_status
  delivered :: "'r option"

record ('a, 'r) queue =
  requestQueue :: nat
  slots :: "('a, 'r) slot list"
  observed :: "(nat \<times> 'a) list"

definition init_queue :: "('a, 'r) queue" where
  "init_queue = \<lparr>requestQueue = 0, slots = [], observed = []\<rparr>"

definition fulfilled :: "('a, 'r) queue \<Rightarrow> nat \<Rightarrow> bool" where
  "fulfilled q p \<longleftrightarrow> p = 0 \<or> (p - 1 < length (slots q) \<and> stage (slots q ! (p - 1)) = Settled)"

definition enqueue :: "'a list \<Rightarrow> 'r \<Rightarrow> ('a, 'r) queue \<Rightarrow> ('a, 'r) queue" where
  "enqueue ops r q =
     q\<lparr>slots := slots q @ [\<lparr>chained_on = requestQueue q, program = ops, result = r,
                             performed = 0, stage = Waiting, delivered = None\<rparr>],
       requestQueue := Suc (length (slots q))\<rparr>"

definition begin_thunk :: "nat \<Rightarrow> ('a, 'r) queue \<Rightarrow> ('a, 'r) queue" where
  "begin_thunk k q = q\<lparr>slots := (slots q)[k := (slots q ! k)\<lparr>stage := Running\<rparr>]\<rparr>"

definition perform :: "nat \<Rightarrow> ('a, 'r) queue \<Rightarrow> ('a, 'r) queue" where
  "perform k q =
     q\<lparr>slots := (slots q)[k := (slots q ! k)\<lparr>performed := Suc (performed (slots q ! k))\<rparr>],
       observed := observed q @ [(k, program (slots q ! k) ! performed (slots q ! k))]\<rparr>"

definition settle :: "nat \<Rightarrow> ('a, 'r) queue \<Rightarrow> ('a, 'r) queue" where
  "settle k q =
     q\<lparr>slots := (slots q)[k := (slots q ! k)\<lparr>stage := Settled,
                                                delivered := Some (result (slots q ! k))\<rparr>]\<rparr>"

text \<open>
  One step of the event loop: a client call is admitted, a thunk whose predecessor
  promise is fulfilled begins, a running thunk performs its next backend operation, or
  a running thunk with nothing left settles.
\<close>

inductive step :: "('a, 'r) queue \<Rightarrow> ('a, 'r) queue \<Rightarrow> bool" where
  admit: "step q (enqueue ops r q)"
| start: "k < length (slots q) \<Longrightarrow> stage (slots q ! k) = Waiting
          \<Longrightarrow> fulfilled q (chained_on (slots q ! k)) \<Longrightarrow> step q (begin_thunk k q)"
| operate: "k < length (slots q) \<Longrightarrow> stage (slots q ! k) = Running
          \<Longrightarrow> performed (slots q ! k) < length (program (slots q ! k)) \<Longrightarrow> step q (perform k q)"
| finish: "k < length (slots q) \<Longrightarrow> stage (slots q ! k) = Running
          \<Longrightarrow> performed (slots q ! k) = length (program (slots q ! k)) \<Longrightarrow> step q (settle k q)"

definition reachable :: "('a, 'r) queue \<Rightarrow> bool" where
  "reachable q \<longleftrightarrow> step\<^sup>*\<^sup>* init_queue q"

text \<open>The operations of the slots in submission order, each as far as it has got.\<close>

fun trace_from :: "nat \<Rightarrow> ('a, 'r) slot list \<Rightarrow> (nat \<times> 'a) list" where
  "trace_from i [] = []"
| "trace_from i (s # ss) = map (Pair i) (take (performed s) (program s)) @ trace_from (Suc i) ss"

definition queue_inv :: "('a, 'r) queue \<Rightarrow> bool" where
  "queue_inv q \<longleftrightarrow>
     requestQueue q = length (slots q)
   \<and> observed q = trace_from 0 (slots q)
   \<and> (\<forall>k < length (slots q).
        chained_on (slots q ! k) = k
      \<and> performed (slots q ! k) \<le> length (program (slots q ! k))
      \<and> (stage (slots q ! k) = Waiting \<longrightarrow> performed (slots q ! k) = 0)
      \<and> (stage (slots q ! k) = Settled \<longrightarrow> performed (slots q ! k) = length (program (slots q ! k)))
      \<and> (stage (slots q ! k) \<noteq> Waiting \<longrightarrow> (\<forall>j < k. stage (slots q ! j) = Settled)))"

section \<open>Notions used in the statements\<close>

text \<open>
  The output of the chat-completions transcoder for a body given as its lines: every line
  through \<^verbatim>\<open>processSSELines\<close> with the flag threaded, then the safety net.
\<close>

definition transcode_lines :: "(string \<Rightarrow> json option) \<Rightarrow> string list \<Rightarrow> sse_chunk list" where
  "transcode_lines parse lines =
     (let (out, d) = processSSELines parse lines False
      in out @ (if \<not> d then [FinishStop, DoneTerminator] else []))"

text \<open>A backend line whose event carries the extractable text \<open>text\<close>.\<close>

definition carries_text :: "(string \<Rightarrow> json option) \<Rightarrow> string \<Rightarrow> json \<Rightarrow> bool" where
  "carries_text parse line text \<longleftrightarrow>
     (case data_payload line of
        None \<Rightarrow> False
      | Some jsonStr \<Rightarrow> jsonStr \<noteq> ''[DONE]'' \<and>
          (case parse jsonStr of None \<Rightarrow> False | Some data \<Rightarrow> extractText data = text \<and> truthy text))"

text \<open>The four events of the preamble, and the events that close a response.\<close>

definition preamble :: "lifecycle list" where
  "preamble = [ResponseCreated, ResponseInProgress, OutputItemAdded, ContentPartAdded]"

definition closing :: "string \<Rightarrow> usage \<Rightarrow> lifecycle list" where
  "closing text u = [OutputTextDone text, ContentPartDone text, OutputItemDone text, ResponseCompleted text u]"

fun is_closing :: "lifecycle \<Rightarrow> bool" where
  "is_closing (OutputTextDone t) = True"
| "is_closing (ContentPartDone t) = True"
| "is_closing (OutputItemDone t) = True"
| "is_closing (ResponseCompleted t u) = True"
| "is_closing _ = False"


fun is_text_delta :: "lifecycle \<Rightarrow> bool" where
  "is_text_delta (OutputTextDelta t) = True"
| "is_text_delta _ = False"

text \<open>
  What a response-lifecycle session has emitted while it transforms: nothing before the
  first text fragment; afterwards the preamble and one delta for each fragment \<open>ts\<close>,
  numbered from zero.
\<close>

definition session_shape :: "json list \<Rightarrow> resp_state \<Rightarrow> bool" where
  "session_shape ts st \<longleftrightarrow>
     map fst (emitted st) = [0..<seqNum st]
   \<and> fullText st = concat (map js_to_string ts)
   \<and> list_all truthy ts
   \<and> preambleSent st = (ts \<noteq> [])
   \<and> map snd (emitted st) = (if ts = [] then [] else preamble @ map OutputTextDelta ts)"

text \<open>Adjacent pairs of a stop chunk and the terminator.\<close>

fun terminal_pairs :: "sse_chunk list \<Rightarrow> nat" where
  "terminal_pairs (x # y # rest) =
     (if x = FinishStop \<and> y = DoneTerminator then 1 else 0) + terminal_pairs (y # rest)"
| "terminal_pairs [x] = 0"
| "terminal_pairs [] = 0"

text \<open>First-party text events of the backend whose text is the empty string.\<close>

definition empty_text_event :: "json \<Rightarrow> bool" where
  "empty_text_event data \<longleftrightarrow>
     (js_get data ''event_kind'' = Some (JStr ''part_start'')
        \<and> js_get_opt (js_get data ''part'') ''part_kind'' = Some (JStr ''text'')
        \<and> js_get_opt (js_get data ''part'') ''content'' = Some (JStr []))
   \<or> (js_get data ''event_kind'' = Some (JStr ''part_delta'')
        \<and> js_get_opt (js_get data ''delta'') ''part_delta_kind'' = Some (JStr ''text'')
        \<and> js_get_opt (js_get data ''delta'') ''content_delta'' = Some (JStr []))"

text \<open>
  What one run of \<^verbatim>\<open>processSSELines\<close> from flag \<open>d\<close> to flag \<open>d'\<close> may have emitted.
\<close>

definition chunk_counts :: "sse_chunk list \<Rightarrow> bool \<Rightarrow> bool \<Rightarrow> bool" where
  "chunk_counts out d d' \<longleftrightarrow>
     count_list out DoneTerminator = (if d' \<and> \<not> d then 1 else 0)
   \<and> (d \<longrightarrow> d')
   \<and> terminal_pairs out = count_list out FinishStop
   \<and> count_list out FinishStop \<le> count_list out DoneTerminator
   \<and> (out = [] \<or> last out \<noteq> FinishStop)
   \<and> list_all (\<lambda>c. case c of ContentDelta t \<Rightarrow> truthy t | _ \<Rightarrow> True) out"


text \<open>
  Backends to run the driver on. They accept every submission and every idle probe. The
  first answers every \<^verbatim>\<open>stream_chat\<close> with 500, the second with 409 once and with a
  stream of one text event after that.
\<close>

definition replies :: "(call list \<Rightarrow> fetch_result) \<Rightarrow> call list \<Rightarrow> reply" where
  "replies stream h =
     (case last h of
        SetChatMessage p \<Rightarrow> \<lparr>outcome = HttpResponse 200 None, elapsed = 5\<rparr>
      | SessionsCreate \<Rightarrow> \<lparr>outcome = HttpResponse 200 None, elapsed = 5\<rparr>
      | StreamChat \<Rightarrow> \<lparr>outcome = stream h, elapsed = 5\<rparr>)"

definition failing_backend :: "call list \<Rightarrow> reply" where
  "failing_backend = replies (\<lambda>h. HttpResponse 500 None)"

definition busy_once_backend :: "call list \<Rightarrow> reply" where
  \<open>busy_once_backend = replies (\<lambda>h.
     if count_list h StreamChat \<le> 1 then HttpResponse 409 None
     else HttpResponse 200 (Some [''data: {"text_delta":"a"}'']))\<close>







definition rejecting_backend :: "call list \<Rightarrow> reply" where
  \<open>rejecting_backend h =
     (case last h of
        SetChatMessage p \<Rightarrow>
          \<lparr>outcome = HttpResponse (if length h = 4 then 500 else 200) None, elapsed = 5\<rparr>
      | SessionsCreate \<Rightarrow> \<lparr>outcome = HttpResponse 200 None, elapsed = 5\<rparr>
      | StreamChat \<Rightarrow>
          \<lparr>outcome = (if count_list h StreamChat \<le> 1 then HttpResponse 409 None
                      else HttpResponse 200 (Some [''data: {"text_delta":"a"}''])),
           elapsed = 5\<rparr>)\<close>

definition busy_twice_backend :: "call list \<Rightarrow> reply" where
  \<open>busy_twice_backend = replies (\<lambda>h.
     if count_list h StreamChat \<le> 2 then HttpResponse 409 None
     else HttpResponse 200 (Some [''data: {"text_delta":"a"}'']))\<close>



section \<open>Line reassembly\<close>

lemma split_nl_nonempty: "split_nl s \<noteq> []"
  by (induction s) (auto split: list.splits)

lemma split_nl_append:
  "split_nl (a @ b) = butlast (split_nl a) @ split_nl (last (split_nl a) @ b)"
proof (induction a)
  case Nil
  show ?case by simp
next
  case (Cons c cs)
  show ?case
  proof (cases "c = CHR 0x0A")
    case True
    with Cons show ?thesis by (simp add: split_nl_nonempty)
  next
    case False
    obtain p ps where ps: "split_nl cs = p # ps"
      using split_nl_nonempty[of cs] by (cases "split_nl cs") auto
    show ?thesis
    proof (cases ps)
      case Nil
      with False ps Cons show ?thesis by simp
    next
      case (Cons q qs)
      with False ps Cons.IH show ?thesis by (simp add: split_nl_nonempty)
    qed
  qed
qed

lemma split_nl_join:
  "concat (map (\<lambda>l. l @ [CHR 0x0A]) (butlast (split_nl s))) @ last (split_nl s) = s"
proof (induction s)
  case Nil
  show ?case by simp
next
  case (Cons c cs)
  obtain p ps where ps: "split_nl cs = p # ps"
    using split_nl_nonempty[of cs] by (cases "split_nl cs") auto
  with Cons show ?case by (cases ps) (auto simp: split_nl_nonempty)
qed

lemma split_nl_last: "split_nl (last (split_nl s)) = [last (split_nl s)]"
proof (induction s)
  case Nil
  show ?case by simp
next
  case (Cons c cs)
  obtain p ps where ps: "split_nl cs = p # ps"
    using split_nl_nonempty[of cs] by (cases "split_nl cs") auto
  with Cons show ?case by (cases ps) (auto simp: split_nl_nonempty)
qed

lemma split_nl_butlast_last: "butlast (split_nl s) @ [last (split_nl s)] = split_nl s"
  by (simp add: split_nl_nonempty)

lemma reassemble_eq:
  assumes "split_nl buf = [buf]"
  shows "reassemble chunks buf =
     (butlast (split_nl (buf @ concat chunks)), last (split_nl (buf @ concat chunks)))"
  using assms
proof (induction chunks arbitrary: buf)
  case Nil
  then show ?case by simp
next
  case (Cons c cs)
  let ?parts = "split_nl (buf @ c)"
  have l: "split_nl (last ?parts) = [last ?parts]" by (rule split_nl_last)
  have "split_nl (buf @ concat (c # cs)) = butlast ?parts @ split_nl (last ?parts @ concat cs)"
    using split_nl_append[of "buf @ c" "concat cs"] by simp
  then show ?case
    using Cons.IH[OF l] by (simp add: split_nl_nonempty butlast_append Let_def)
qed

lemma processSSELines_append:
  "processSSELines parse (xs @ ys) d =
     (let (out1, d1) = processSSELines parse xs d;
          (out2, d2) = processSSELines parse ys d1
      in (out1 @ out2, d2))"
  by (induction xs arbitrary: d) (auto split: prod.splits)

lemma transform_all_reassemble:
  "transform_all parse chunks st =
     (let (ls, b) = reassemble chunks (buffer st);
          (out, d) = processSSELines parse ls (doneSent st)
      in (out, \<lparr>buffer = b, doneSent = d\<rparr>))"
proof (induction chunks arbitrary: st)
  case Nil
  show ?case by simp
next
  case (Cons c cs)
  show ?case
    by (simp add: Cons.IH transform_def processSSELines_append Let_def split: prod.splits)
qed

lemma blank_line_skipped: "js_trim line = [] \<Longrightarrow> process_line parse line d = ([], d)"
  by (simp add: process_line_def data_payload_def)

lemma flush_as_line:
  "flush parse st =
     (let (out, d) = processSSELines parse [buffer st] (doneSent st)
      in out @ (if \<not> d then [FinishStop, DoneTerminator] else []))"
  by (auto simp: flush_def blank_line_skipped split: prod.splits)

lemma stream_completion_lines:
  "stream_completion parse chunks = transcode_lines parse (split_nl (concat chunks))"
proof -
  let ?parts = "split_nl (concat chunks)"
  have r: "reassemble chunks [] = (butlast ?parts, last ?parts)"
    using reassemble_eq[of "[]" chunks] by simp
  have "processSSELines parse ?parts False =
     (let (out1, d1) = processSSELines parse (butlast ?parts) False;
          (out2, d2) = processSSELines parse [last ?parts] d1
      in (out1 @ out2, d2))"
    using processSSELines_append[of parse "butlast ?parts" "[last ?parts]" False]
    by (simp only: split_nl_butlast_last)
  then show ?thesis
    unfolding stream_completion_def transcode_lines_def transform_all_reassemble flush_as_line
    by (simp add: r init_stream_def split: prod.splits)
qed


lemma done_flag_emitted:
  "processSSELines parse ls d = (out, d') \<Longrightarrow> \<not> d \<Longrightarrow> d' \<Longrightarrow> DoneTerminator \<in> set out"
proof (induction ls arbitrary: d out)
  case Nil
  then show ?case by simp
next
  case (Cons l ls)
  obtain o1 d1 where p: "process_line parse l d = (o1, d1)" by (cases "process_line parse l d")
  obtain o2 d2 where q: "processSSELines parse ls d1 = (o2, d2)" by (cases "processSSELines parse ls d1")
  from Cons.prems p q have out: "out = o1 @ o2" and d2: "d2 = d'" by auto
  show ?case
  proof (cases d1)
    case True
    with p Cons.prems(2) have "DoneTerminator \<in> set o1"
      by (auto simp: process_line_def Let_def split: option.splits if_splits)
    with out show ?thesis by simp
  next
    case False
    from q d2 have "processSSELines parse ls d1 = (o2, d')" by simp
    from Cons.IH[OF this] False Cons.prems(3) out show ?thesis by simp
  qed
qed


section \<open>Chunking\<close>

text \<open>
  Claim C4. Two ways of cutting one backend body into chunks give the same complete lines
  and the same held-back fragment, the same emitted chunk sequence in streaming mode and
  the same aggregate text in non-streaming mode. The lines with the fragment are the lines
  of the body, joining them with line feeds gives the body back, the transcoder has
  processed exactly the complete lines and holds the fragment in its buffer when the body
  ends, and the streamed output is what processing the complete lines and then the
  fragment as one final line gives.
\<close>

theorem chunking_invariance:
  assumes "concat chunks = concat chunks'"
  shows "reassemble chunks [] = reassemble chunks' []
       \<and> stream_completion parse chunks = stream_completion parse chunks'
       \<and> aggregate_content parse chunks = aggregate_content parse chunks'
       \<and> (case reassemble chunks [] of (ls, fragment) \<Rightarrow>
            ls @ [fragment] = split_nl (concat chunks)
          \<and> concat (map (\<lambda>l. l @ [CHR 0x0A]) ls) @ fragment = concat chunks
          \<and> buffer (snd (transform_all parse chunks init_stream)) = fragment
          \<and> fst (transform_all parse chunks init_stream) = fst (processSSELines parse ls False)
          \<and> stream_completion parse chunks = transcode_lines parse (ls @ [fragment]))"
proof -
  have r: "reassemble cs [] = (butlast (split_nl (concat cs)), last (split_nl (concat cs)))" for cs
    using reassemble_eq [of "[]" cs] by simp
  have "reassemble chunks [] = reassemble chunks' []"
    by (simp add: r assms)
  moreover have "stream_completion parse chunks = stream_completion parse chunks'"
    by (simp add: stream_completion_lines assms)
  moreover have "aggregate_content parse chunks = aggregate_content parse chunks'"
    by (simp add: aggregate_content_def assms)
  moreover have "butlast (split_nl (concat chunks)) @ [last (split_nl (concat chunks))] = split_nl (concat chunks)"
    by (rule split_nl_butlast_last)
  moreover have "buffer (snd (transform_all parse chunks init_stream)) = last (split_nl (concat chunks))"
    and "fst (transform_all parse chunks init_stream)
           = fst (processSSELines parse (butlast (split_nl (concat chunks))) False)"
  proof -
    obtain out d where p: "processSSELines parse (butlast (split_nl (concat chunks))) False = (out, d)"
      by (cases "processSSELines parse (butlast (split_nl (concat chunks))) False")
    have t: "transform_all parse chunks init_stream
               = (out, \<lparr>buffer = last (split_nl (concat chunks)), doneSent = d\<rparr>)"
      unfolding transform_all_reassemble by (simp add: init_stream_def r p)
    show "buffer (snd (transform_all parse chunks init_stream)) = last (split_nl (concat chunks))"
      by (simp add: t)
    show "fst (transform_all parse chunks init_stream)
           = fst (processSSELines parse (butlast (split_nl (concat chunks))) False)"
      by (simp add: t p)
  qed
  moreover note split_nl_join [of "concat chunks"] stream_completion_lines [of parse chunks]
  ultimately show ?thesis
    by (simp add: r)
qed

theorem chunking_invariance_witness:
  \<open>concat [''data: {"text_del'', ''ta":"a"}'', [CHR 0x0A], ''data: [DO'', ''NE]'']
     = concat [''data: {"text_delta":"a"}'' @ [CHR 0x0A] @ ''data: [DONE]'']
   \<and> stream_completion json_parse [''data: {"text_del'', ''ta":"a"}'', [CHR 0x0A], ''data: [DO'', ''NE]'']
     = stream_completion json_parse [''data: {"text_delta":"a"}'' @ [CHR 0x0A] @ ''data: [DONE]'']
   \<and> stream_completion json_parse [''data: {"text_delta":"a"}'' @ [CHR 0x0A] @ ''data: [DONE]'']
     = [ContentDelta (JStr ''a''), DoneTerminator]\<close>
proof -
  have h: \<open>concat [''data: {"text_del'', ''ta":"a"}'', [CHR 0x0A], ''data: [DO'', ''NE]'']
     = concat [''data: {"text_delta":"a"}'' @ [CHR 0x0A] @ ''data: [DONE]'']\<close>
    by simp
  have v: \<open>stream_completion json_parse [''data: {"text_delta":"a"}'' @ [CHR 0x0A] @ ''data: [DONE]'']
     = [ContentDelta (JStr ''a''), DoneTerminator]\<close>
    by code_simp
  show ?thesis
    using chunking_invariance [OF h, of json_parse] h v by simp
qed

section \<open>Text after the terminator\<close>

text \<open>
  Claim C10. In the chat-completions streaming transcoder the terminal flag does not guard
  text: a backend event with extractable text that arrives when the stop chunk and the
  \<^verbatim>\<open>data: [DONE]\<close> terminator are already out still yields a content-delta chunk, so a
  content chunk can follow the terminator on the client stream.
\<close>

theorem content_after_terminator:
  assumes "carries_text parse line text"
      and "processSSELines parse earlier False = (out, True)"
  shows "processSSELines parse [line] True = ([ContentDelta text], True)
       \<and> DoneTerminator \<in> set out
       \<and> processSSELines parse (earlier @ [line]) False = (out @ [ContentDelta text], True)"
proof -
  have one: "process_line parse line True = ([ContentDelta text], True)"
    using assms(1) by (auto simp: carries_text_def process_line_def split: option.splits)
  have d: "DoneTerminator \<in> set out"
    using done_flag_emitted[OF assms(2)] by simp
  show ?thesis
    using one d assms(2) by (simp add: processSSELines_append)
qed

theorem content_after_terminator_witness:
  \<open>carries_text json_parse ''data: {"text_delta":"late"}'' (JStr ''late'')
   \<and> processSSELines json_parse [''data: {"done":true}''] False = ([FinishStop, DoneTerminator], True)
   \<and> processSSELines json_parse [''data: {"done":true}'', ''data: {"text_delta":"late"}''] False
       = ([FinishStop, DoneTerminator, ContentDelta (JStr ''late'')], True)\<close>
proof -
  have h1: \<open>carries_text json_parse ''data: {"text_delta":"late"}'' (JStr ''late'')\<close>
    by code_simp
  have h2: \<open>processSSELines json_parse [''data: {"done":true}''] False = ([FinishStop, DoneTerminator], True)\<close>
    by code_simp
  show ?thesis
    using content_after_terminator [OF h1 h2] h1 h2 by simp
qed

section \<open>Counting terminal chunks\<close>

lemma terminal_pairs_append:
  "xs = [] \<or> last xs \<noteq> FinishStop \<Longrightarrow> terminal_pairs (xs @ ys) = terminal_pairs xs + terminal_pairs ys"
proof (induction xs)
  case Nil
  show ?case by simp
next
  case (Cons x xs)
  show ?case
  proof (cases xs)
    case Nil
    with Cons.prems show ?thesis by (cases ys) auto
  next
    case ne: (Cons y zs)
    with Cons.prems Cons.IH show ?thesis by simp
  qed
qed


lemma process_line_cases:
  assumes "process_line parse l d = (out, d')"
  shows "(out = [] \<and> d' = d)
       \<or> (out = [DoneTerminator] \<and> \<not> d \<and> d' \<and> data_payload l = Some ''[DONE]'')
       \<or> (\<exists>t. truthy t \<and> out = [ContentDelta t] \<and> d' = d)
       \<or> (\<exists>t. truthy t \<and> out = [ContentDelta t, FinishStop, DoneTerminator] \<and> \<not> d \<and> d')
       \<or> (out = [FinishStop, DoneTerminator] \<and> \<not> d \<and> d')"
proof (cases "data_payload l")
  case None
  with assms show ?thesis by (simp add: process_line_def)
next
  case (Some jsonStr)
  show ?thesis
  proof (cases "jsonStr = ''[DONE]''")
    case True
    with Some assms show ?thesis by (cases d) (auto simp: process_line_def)
  next
    case False
    show ?thesis
    proof (cases "parse jsonStr")
      case None
      with Some False assms show ?thesis by (simp add: process_line_def)
    next
      case (Some data)
      from assms \<open>data_payload l = Some jsonStr\<close> False Some
      have e: "(out, d') =
         (let textContent = extractText data;
              out1 = (if truthy textContent then [ContentDelta textContent] else [])
          in if \<not> d \<and> isStreamEnd data
             then (out1 @ [FinishStop, DoneTerminator], True)
             else (out1, d))"
        by (simp add: process_line_def)
      show ?thesis
      proof (cases "truthy (extractText data)")
        case True
        with e show ?thesis by (cases "\<not> d \<and> isStreamEnd data") (simp_all add: Let_def)
      next
        case False
        with e show ?thesis by (cases "\<not> d \<and> isStreamEnd data") (simp_all add: Let_def)
      qed
    qed
  qed
qed


lemma process_line_counts:
  assumes "process_line parse l d = (out, d')"
  shows "chunk_counts out d d'"
  using process_line_cases[OF assms]
  by (elim disjE exE conjE) (simp_all add: chunk_counts_def)

lemma chunk_counts_append:
  assumes "chunk_counts o1 d d1" and "chunk_counts o2 d1 d2"
  shows "chunk_counts (o1 @ o2) d d2"
proof -
  from assms have a: "count_list o1 DoneTerminator = (if d1 \<and> \<not> d then 1 else 0)"
    and b: "count_list o2 DoneTerminator = (if d2 \<and> \<not> d1 then 1 else 0)"
    and m1: "d \<longrightarrow> d1" and m2: "d1 \<longrightarrow> d2"
    and p1: "terminal_pairs o1 = count_list o1 FinishStop"
    and p2: "terminal_pairs o2 = count_list o2 FinishStop"
    and s1: "count_list o1 FinishStop \<le> count_list o1 DoneTerminator"
    and s2: "count_list o2 FinishStop \<le> count_list o2 DoneTerminator"
    and l1: "o1 = [] \<or> last o1 \<noteq> FinishStop"
    and l2: "o2 = [] \<or> last o2 \<noteq> FinishStop"
    and t1: "list_all (\<lambda>c. case c of ContentDelta t \<Rightarrow> truthy t | _ \<Rightarrow> True) o1"
    and t2: "list_all (\<lambda>c. case c of ContentDelta t \<Rightarrow> truthy t | _ \<Rightarrow> True) o2"
    by (simp_all add: chunk_counts_def)
  have "count_list (o1 @ o2) DoneTerminator = (if d2 \<and> \<not> d then 1 else 0)"
    using a b m1 m2 by (cases d; cases d1; cases d2) simp_all
  moreover have "d \<longrightarrow> d2" using m1 m2 by blast
  moreover have "terminal_pairs (o1 @ o2) = count_list (o1 @ o2) FinishStop"
    using terminal_pairs_append[OF l1, of o2] p1 p2 by simp
  moreover have "count_list (o1 @ o2) FinishStop \<le> count_list (o1 @ o2) DoneTerminator"
    using s1 s2 by simp
  moreover have "o1 @ o2 = [] \<or> last (o1 @ o2) \<noteq> FinishStop"
    using l1 l2 by (cases "o2 = []") simp_all
  moreover have "list_all (\<lambda>c. case c of ContentDelta t \<Rightarrow> truthy t | _ \<Rightarrow> True) (o1 @ o2)"
    using t1 t2 by simp
  ultimately show ?thesis
    unfolding chunk_counts_def by blast
qed

lemma processSSELines_counts:
  "processSSELines parse ls d = (out, d') \<Longrightarrow> chunk_counts out d d'"
proof (induction ls arbitrary: d out)
  case Nil
  then show ?case by (auto simp: chunk_counts_def)
next
  case (Cons l ls)
  obtain o1 d1 where p: "process_line parse l d = (o1, d1)" by (cases "process_line parse l d")
  obtain o2 d2 where q: "processSSELines parse ls d1 = (o2, d2)" by (cases "processSSELines parse ls d1")
  from Cons.prems p q have out: "out = o1 @ o2" and d2: "d2 = d'" by auto
  from q d2 have "processSSELines parse ls d1 = (o2, d')" by simp
  from Cons.IH[OF this] process_line_counts[OF p] out show ?case
    by (simp add: chunk_counts_append)
qed

lemma process_line_no_sentinel:
  assumes "process_line parse l d = (out, d')" and "data_payload l \<noteq> Some ''[DONE]''"
  shows "count_list out FinishStop = count_list out DoneTerminator"
  using process_line_cases[OF assms(1)] assms(2)
  by (elim disjE exE conjE) simp_all

lemma processSSELines_no_sentinel:
  "processSSELines parse ls d = (out, d') \<Longrightarrow> \<forall>l \<in> set ls. data_payload l \<noteq> Some ''[DONE]''
   \<Longrightarrow> count_list out FinishStop = count_list out DoneTerminator"
proof (induction ls arbitrary: d out)
  case Nil
  then show ?case by simp
next
  case (Cons l ls)
  obtain o1 d1 where p: "process_line parse l d = (o1, d1)" by (cases "process_line parse l d")
  obtain o2 d2 where q: "processSSELines parse ls d1 = (o2, d2)" by (cases "processSSELines parse ls d1")
  from Cons.prems p q have out: "out = o1 @ o2" and d2: "d2 = d'" by auto
  from q d2 have r: "processSSELines parse ls d1 = (o2, d')" by simp
  from Cons.prems(2) have n1: "data_payload l \<noteq> Some ''[DONE]''"
    and n2: "\<forall>l \<in> set ls. data_payload l \<noteq> Some ''[DONE]''" by simp_all
  from Cons.IH[OF r n2] process_line_no_sentinel[OF p n1] out show ?case
    by simp
qed

lemma transcode_lines_counts:
  "count_list (transcode_lines parse ls) DoneTerminator = 1
   \<and> terminal_pairs (transcode_lines parse ls) = count_list (transcode_lines parse ls) FinishStop
   \<and> count_list (transcode_lines parse ls) FinishStop \<le> 1
   \<and> list_all (\<lambda>c. case c of ContentDelta t \<Rightarrow> truthy t | _ \<Rightarrow> True) (transcode_lines parse ls)
   \<and> ((\<forall>l \<in> set ls. data_payload l \<noteq> Some ''[DONE]'') \<longrightarrow> terminal_pairs (transcode_lines parse ls) = 1)"
proof -
  obtain out d where p: "processSSELines parse ls False = (out, d)"
    by (cases "processSSELines parse ls False")
  have c: "chunk_counts out False d" by (rule processSSELines_counts[OF p])
  have t: "transcode_lines parse ls = out @ (if \<not> d then [FinishStop, DoneTerminator] else [])"
    by (simp add: transcode_lines_def p)
  have tail: "chunk_counts (if \<not> d then [FinishStop, DoneTerminator] else []) d True"
    by (simp add: chunk_counts_def)
  have all: "chunk_counts (transcode_lines parse ls) False True"
    unfolding t by (rule chunk_counts_append[OF c tail])
  have n: "count_list (transcode_lines parse ls) FinishStop = count_list (transcode_lines parse ls) DoneTerminator"
    if "\<forall>l \<in> set ls. data_payload l \<noteq> Some ''[DONE]''"
    using processSSELines_no_sentinel[OF p that] by (simp add: t)
  from all n show ?thesis
    by (simp add: chunk_counts_def)
qed






section \<open>The shape of a response-lifecycle session\<close>

lemma session_shape_init: "session_shape [] init_resp"
  by (simp add: session_shape_def init_resp_def)

lemma shape_seqNum:
  assumes "session_shape ts st"
  shows "seqNum st = length (emitted st)"
proof -
  from assms have "map fst (emitted st) = [0..<seqNum st]" by (simp add: session_shape_def)
  then have "length (map fst (emitted st)) = length [0..<seqNum st]" by (rule arg_cong)
  then show ?thesis by simp
qed

lemma emit_text_shape:
  assumes "session_shape ts st"
  shows "session_shape (if truthy text then ts @ [text] else ts) (emit_text text st)"
proof (cases "truthy text")
  case False
  with assms show ?thesis by (simp add: emit_text_def)
next
  case True
  show ?thesis
  proof (cases "ts = []")
    case e: True
    with assms have "emitted st = []" "\<not> preambleSent st" "fullText st = []"
      by (auto simp: session_shape_def)
    moreover from assms have "seqNum st = length (emitted st)"
      by (rule shape_seqNum)
    ultimately have "seqNum st = 0" "emitted st = []" "\<not> preambleSent st" "fullText st = []"
      by simp_all
    with True e show ?thesis
      by (simp add: session_shape_def emit_text_def sendPreamble_def emit_def preamble_def Let_def)
  next
    case ne: False
    with assms have p: "preambleSent st" by (simp add: session_shape_def)
    from assms ne True p show ?thesis
      by (simp add: session_shape_def emit_text_def sendPreamble_def emit_def Let_def)
  qed
qed

lemma shape_usage: "session_shape ts (st\<lparr>usageData := u\<rparr>) = session_shape ts st"
  by (simp add: session_shape_def)

lemma shape_rbuffer: "session_shape ts (st\<lparr>rbuffer := b\<rparr>) = session_shape ts st"
  by (simp add: session_shape_def)

lemma resp_line_shape:
  assumes "session_shape ts st"
  shows "case resp_line parse line st of
           Inl (e, st') \<Rightarrow> session_shape ts st'
         | Inr st' \<Rightarrow> \<exists>ts'. session_shape (ts @ ts') st'"
proof -
  have a: "\<exists>ts'. session_shape (ts @ ts') st" using assms by (intro exI[of _ "[]"]) simp
  have b: "\<exists>ts'. session_shape (ts @ ts') (emit_text t st1)" if "session_shape ts st1" for t st1
    using emit_text_shape[OF that, of t] by (cases "truthy t") (auto intro: exI[of _ "[]"])
  show ?thesis
    using a b assms
    by (auto simp: resp_line_def Let_def shape_usage split: option.splits)
qed

lemma resp_lines_shape:
  assumes "session_shape ts st"
  shows "case resp_lines parse ls st of
           Inl (e, st') \<Rightarrow> \<exists>ts'. session_shape (ts @ ts') st'
         | Inr st' \<Rightarrow> \<exists>ts'. session_shape (ts @ ts') st'"
  using assms
proof (induction ls arbitrary: ts st)
  case Nil
  then show ?case by (auto intro: exI[of _ "[]"])
next
  case (Cons l ls)
  show ?case
  proof (cases "resp_line parse l st")
    case (Inl x)
    with resp_line_shape[OF Cons.prems, of parse l] show ?thesis
      by (cases x) (auto intro: exI[of _ "[]"])
  next
    case (Inr st1)
    with resp_line_shape[OF Cons.prems, of parse l]
    obtain ts1 where s1: "session_shape (ts @ ts1) st1" by auto
    from Cons.IH[OF s1, of ] Inr show ?thesis
      by (auto split: sum.splits)
  qed
qed


lemma resp_transform_all_shape:
  assumes "session_shape ts st"
  shows "case resp_transform_all parse chunks st of
           Inl (e, st') \<Rightarrow> \<exists>ts'. session_shape (ts @ ts') st'
         | Inr st' \<Rightarrow> \<exists>ts'. session_shape (ts @ ts') st'"
  using assms
proof (induction chunks arbitrary: ts st)
  case Nil
  then show ?case by (auto intro: exI[of _ "[]"])
next
  case (Cons c cs)
  let ?st0 = "st\<lparr>rbuffer := last (split_nl (rbuffer st @ c))\<rparr>"
  have s0: "session_shape ts ?st0" using Cons.prems by (simp add: shape_rbuffer)
  let ?r = "resp_lines parse (butlast (split_nl (rbuffer st @ c))) ?st0"
  have t: "resp_transform parse c st = ?r"
    by (simp add: resp_transform_def Let_def)
  have sh: "case ?r of
              Inl (e, st') \<Rightarrow> \<exists>ts'. session_shape (ts @ ts') st'
            | Inr st' \<Rightarrow> \<exists>ts'. session_shape (ts @ ts') st'"
    by (rule resp_lines_shape[OF s0])
  show ?case
  proof (cases ?r)
    case (Inl x)
    with sh show ?thesis by (simp add: t split: prod.splits)
  next
    case (Inr st1)
    with sh obtain ts1 where s1: "session_shape (ts @ ts1) st1" by auto
    have "resp_transform_all parse (c # cs) st = resp_transform_all parse cs st1"
      by (simp add: t Inr)
    with Cons.IH[OF s1, of ] show ?thesis
      by (auto split: sum.splits)
  qed
qed

lemma emit_usage: "usageData (emit ev st) = usageData st"
  by (simp add: emit_def)

lemma emit_text_usage: "usageData (emit_text t st) = usageData st"
  by (simp add: emit_text_def sendPreamble_def emit_def Let_def)

lemma closing_events:
  assumes "session_shape ts st" and "ts \<noteq> []"
  shows "map snd (emitted (emit (ResponseCompleted (fullText st) (usageData st))
                (emit (OutputItemDone (fullText st))
                  (emit (ContentPartDone (fullText st))
                    (emit (OutputTextDone (fullText st)) st)))))
         = preamble @ map OutputTextDelta ts @ closing (concat (map js_to_string ts)) (usageData st)"
  using assms by (simp add: session_shape_def emit_def closing_def)

lemma resp_flush_events:
  assumes "session_shape ts st"
  shows "\<exists>ts'. list_all truthy (ts @ ts') \<and>
           map snd (emitted (resp_flush parse st)) =
             (if ts @ ts' = [] then []
              else preamble @ map OutputTextDelta (ts @ ts')
                   @ closing (concat (map js_to_string (ts @ ts'))) (usageData st))"
proof -
  define st1 where "st1 =
     (let trimmed = js_trim (rbuffer st) in
      if trimmed \<noteq> [] \<and> startsWith trimmed ''data: ''
      then (let jsonStr = js_trim (drop 6 trimmed) in
            if jsonStr \<noteq> ''[DONE]''
            then (case parse jsonStr of
                    None \<Rightarrow> st
                  | Some data \<Rightarrow> emit_text (extractText data) st)
            else st)
      else st)"
  have a: "\<exists>ts'. session_shape (ts @ ts') st" using assms by (intro exI[of _ "[]"]) simp
  have b: "\<exists>ts'. session_shape (ts @ ts') (emit_text t st)" for t
    using emit_text_shape[OF assms, of t] by (cases "truthy t") (auto intro: exI[of _ "[]"])
  have "\<exists>ts'. session_shape (ts @ ts') st1"
    unfolding st1_def using a b by (auto simp: Let_def split: option.splits)
  then obtain ts' where s1: "session_shape (ts @ ts') st1" ..
  have u: "usageData st1 = usageData st"
    unfolding st1_def by (auto simp: Let_def emit_text_usage split: option.splits)
  have f: "resp_flush parse st =
     (if preambleSent st1
      then emit (ResponseCompleted (fullText st1) (usageData st1))
             (emit (OutputItemDone (fullText st1))
               (emit (ContentPartDone (fullText st1))
                 (emit (OutputTextDone (fullText st1)) st1)))
      else st1)"
    unfolding st1_def resp_flush_def by (simp add: Let_def)
  have t: "list_all truthy (ts @ ts')" using s1 by (simp add: session_shape_def)
  show ?thesis
  proof (cases "ts @ ts' = []")
    case True
    with s1 have "\<not> preambleSent st1" "emitted st1 = []" by (auto simp: session_shape_def)
    with f True t show ?thesis by (intro exI[of _ ts']) simp
  next
    case False
    with s1 have p: "preambleSent st1" by (simp add: session_shape_def)
    have e: "map snd (emitted (resp_flush parse st)) =
               preamble @ map OutputTextDelta (ts @ ts')
               @ closing (concat (map js_to_string (ts @ ts'))) (usageData st)"
      using closing_events[OF s1 False] by (simp add: f p u)
    show ?thesis
      by (intro exI[of _ ts']) (simp only: if_not_P[OF False] t e simp_thms)
  qed
qed

lemma stream_responses_events:
  "\<exists>ts. list_all truthy ts \<and>
     (case stream_responses parse chunks of
        Inl (e, st) \<Rightarrow> map snd (emitted st) = (if ts = [] then [] else preamble @ map OutputTextDelta ts)
      | Inr st \<Rightarrow> map snd (emitted st) =
          (if ts = [] then []
           else preamble @ map OutputTextDelta ts @ closing (concat (map js_to_string ts)) (usageData st)))"
proof (cases "resp_transform_all parse chunks init_resp")
  case (Inl x)
  obtain e st where x: "x = (e, st)" by (cases x)
  with resp_transform_all_shape[OF session_shape_init, of parse chunks] Inl
  obtain ts where "session_shape ts st" by auto
  then have "list_all truthy ts \<and> map snd (emitted st) = (if ts = [] then [] else preamble @ map OutputTextDelta ts)"
    by (simp add: session_shape_def)
  with Inl x show ?thesis
    by (auto simp: stream_responses_def intro!: exI[of _ ts])
next
  case (Inr st)
  with resp_transform_all_shape[OF session_shape_init, of parse chunks]
  obtain ts where s: "session_shape ts st" by auto
  from resp_flush_events[OF s, of parse] obtain ts' where
    "list_all truthy (ts @ ts') \<and>
           map snd (emitted (resp_flush parse st)) =
             (if ts @ ts' = [] then []
              else preamble @ map OutputTextDelta (ts @ ts')
                   @ closing (concat (map js_to_string (ts @ ts'))) (usageData st))" ..
  moreover have "usageData (resp_flush parse st) = usageData st"
    by (auto simp: resp_flush_def Let_def emit_usage emit_text_usage split: option.splits)
  ultimately show ?thesis using Inr
    by (auto simp: stream_responses_def intro!: exI[of _ "ts @ ts'"])
qed

lemma events_shape:
  "\<exists>ts c. list_all truthy ts
     \<and> events_of (stream_responses parse chunks) = (if ts = [] then [] else preamble @ map OutputTextDelta ts @ c)
     \<and> (case stream_responses parse chunks of
           Inl e \<Rightarrow> c = []
         | Inr st \<Rightarrow> c = closing (concat (map js_to_string ts)) (usageData st))"
proof -
  from stream_responses_events[of parse chunks] obtain ts where
    t: "list_all truthy ts" and
    e: "case stream_responses parse chunks of
        Inl (e, st) \<Rightarrow> map snd (emitted st) = (if ts = [] then [] else preamble @ map OutputTextDelta ts)
      | Inr st \<Rightarrow> map snd (emitted st) =
          (if ts = [] then []
           else preamble @ map OutputTextDelta ts @ closing (concat (map js_to_string ts)) (usageData st))"
    by blast
  show ?thesis
  proof (cases "stream_responses parse chunks")
    case (Inl x)
    obtain er st where x: "x = (er, st)" by (cases x)
    with Inl e t show ?thesis
      by (intro exI[of _ ts] exI[of _ "[]"]) simp
  next
    case (Inr st)
    with e t show ?thesis
      by (intro exI[of _ ts] exI[of _ "closing (concat (map js_to_string ts)) (usageData st)"]) simp
  qed
qed

lemma count_preamble:
  assumes "p \<in> set preamble"
  shows "count_list (preamble @ map OutputTextDelta ts @ closing ft u) p = 1"
proof -
  have "count_list (map OutputTextDelta ts) p = 0"
    using assms by (auto simp: preamble_def count_list_0_iff)
  with assms show ?thesis
    by (auto simp: preamble_def closing_def)
qed

lemma count_preamble':
  assumes "p \<in> set preamble"
  shows "count_list (preamble @ map OutputTextDelta ts) p = 1"
proof -
  have "count_list (map OutputTextDelta ts) p = 0"
    using assms by (auto simp: preamble_def count_list_0_iff)
  with assms show ?thesis
    by (auto simp: preamble_def)
qed




section \<open>The queue invariant\<close>

lemma trace_from_append:
  "trace_from i (xs @ ys) = trace_from i xs @ trace_from (i + length xs) ys"
  by (induction xs arbitrary: i) simp_all

lemma trace_from_idle:
  "\<forall>s \<in> set ss. performed s = 0 \<Longrightarrow> trace_from i ss = []"
  by (induction ss arbitrary: i) simp_all

lemma trace_from_lower: "(j, a) \<in> set (trace_from i ss) \<Longrightarrow> i \<le> j"
proof (induction ss arbitrary: i)
  case Nil
  then show ?case by simp
next
  case (Cons s ss)
  then show ?case by (auto dest: Suc_leD)
qed

lemma trace_from_sorted: "sorted (map fst (trace_from i ss))"
proof (induction ss arbitrary: i)
  case Nil
  show ?case by simp
next
  case (Cons s ss)
  have "\<forall>y \<in> set (map fst (trace_from (Suc i) ss)). i \<le> y"
  proof
    fix y assume "y \<in> set (map fst (trace_from (Suc i) ss))"
    then obtain a where "(y, a) \<in> set (trace_from (Suc i) ss)" by auto
    then have "Suc i \<le> y" by (rule trace_from_lower)
    then show "i \<le> y" by simp
  qed
  moreover have "map fst (map (Pair i) (take (performed s) (program s))) = replicate (length (take (performed s) (program s))) i"
    by (simp add: map_replicate_const comp_def)
  ultimately show ?case using Cons.IH[of "Suc i"]
    by (auto simp: sorted_append)
qed

lemma trace_from_update_same:
  assumes "k < length ss" and "performed s' = performed (ss ! k)" and "program s' = program (ss ! k)"
  shows "trace_from i (ss[k := s']) = trace_from i ss"
proof -
  have ss: "ss = take k ss @ (ss ! k) # drop (Suc k) ss"
    using assms(1) by (simp add: id_take_nth_drop)
  have "ss[k := s'] = take k ss @ s' # drop (Suc k) ss"
    using assms(1) by (simp add: upd_conv_take_nth_drop)
  then have "trace_from i (ss[k := s']) = trace_from i (take k ss @ (ss ! k) # drop (Suc k) ss)"
    using assms(2,3) by (simp add: trace_from_append)
  with ss show ?thesis by simp
qed

lemma trace_from_perform:
  assumes "k < length ss"
      and "performed (ss ! k) < length (program (ss ! k))"
      and "\<forall>j. k < j \<and> j < length ss \<longrightarrow> performed (ss ! j) = 0"
  shows "trace_from i (ss[k := (ss ! k)\<lparr>performed := Suc (performed (ss ! k))\<rparr>])
       = trace_from i ss @ [(i + k, program (ss ! k) ! performed (ss ! k))]"
proof -
  let ?s = "ss ! k"
  have idle: "\<forall>s \<in> set (drop (Suc k) ss). performed s = 0"
  proof
    fix s assume "s \<in> set (drop (Suc k) ss)"
    then obtain n where "n < length (drop (Suc k) ss)" and "s = drop (Suc k) ss ! n"
      by (auto simp: in_set_conv_nth)
    then have "s = ss ! (Suc k + n)" and "Suc k + n < length ss" by auto
    with assms(3) show "performed s = 0" by simp
  qed
  have rest: "trace_from j (drop (Suc k) ss) = []" for j
    by (rule trace_from_idle[OF idle])
  have ss: "ss = take k ss @ ?s # drop (Suc k) ss"
    using assms(1) by (simp add: id_take_nth_drop)
  have up: "ss[k := ?s\<lparr>performed := Suc (performed ?s)\<rparr>]
       = take k ss @ ?s\<lparr>performed := Suc (performed ?s)\<rparr> # drop (Suc k) ss"
    using assms(1) by (simp add: upd_conv_take_nth_drop)
  have lk: "min (length ss) k = k" using assms(1) by simp
  have "trace_from i ss = trace_from i (take k ss) @ map (Pair (i + k)) (take (performed ?s) (program ?s))"
    by (subst ss) (simp add: trace_from_append lk rest del: append_take_drop_id)
  moreover have "trace_from i (ss[k := ?s\<lparr>performed := Suc (performed ?s)\<rparr>])
       = trace_from i (take k ss) @ map (Pair (i + k)) (take (Suc (performed ?s)) (program ?s))"
    by (subst up) (simp add: trace_from_append lk rest)
  ultimately show ?thesis
    using assms(2) by (simp add: take_Suc_conv_app_nth)
qed

lemma queue_invI:
  assumes "requestQueue q = length (slots q)"
      and "observed q = trace_from 0 (slots q)"
      and "\<And>k. k < length (slots q) \<Longrightarrow> chained_on (slots q ! k) = k"
      and "\<And>k. k < length (slots q) \<Longrightarrow> performed (slots q ! k) \<le> length (program (slots q ! k))"
      and "\<And>k. k < length (slots q) \<Longrightarrow> stage (slots q ! k) = Waiting \<Longrightarrow> performed (slots q ! k) = 0"
      and "\<And>k. k < length (slots q) \<Longrightarrow> stage (slots q ! k) = Settled
             \<Longrightarrow> performed (slots q ! k) = length (program (slots q ! k))"
      and "\<And>k j. k < length (slots q) \<Longrightarrow> stage (slots q ! k) \<noteq> Waiting \<Longrightarrow> j < k
             \<Longrightarrow> stage (slots q ! j) = Settled"
  shows "queue_inv q"
  unfolding queue_inv_def using assms by blast

lemma inv_len: "queue_inv q \<Longrightarrow> requestQueue q = length (slots q)"
  by (simp add: queue_inv_def)

lemma inv_obs: "queue_inv q \<Longrightarrow> observed q = trace_from 0 (slots q)"
  by (simp add: queue_inv_def)

lemma inv_chain: "queue_inv q \<Longrightarrow> k < length (slots q) \<Longrightarrow> chained_on (slots q ! k) = k"
  by (simp add: queue_inv_def)

lemma inv_bound:
  "queue_inv q \<Longrightarrow> k < length (slots q) \<Longrightarrow> performed (slots q ! k) \<le> length (program (slots q ! k))"
  by (simp add: queue_inv_def)

lemma inv_waiting:
  "queue_inv q \<Longrightarrow> k < length (slots q) \<Longrightarrow> stage (slots q ! k) = Waiting \<Longrightarrow> performed (slots q ! k) = 0"
  by (simp add: queue_inv_def)

lemma inv_settled:
  "queue_inv q \<Longrightarrow> k < length (slots q) \<Longrightarrow> stage (slots q ! k) = Settled
   \<Longrightarrow> performed (slots q ! k) = length (program (slots q ! k))"
  by (simp add: queue_inv_def)

lemma inv_earlier:
  "queue_inv q \<Longrightarrow> k < length (slots q) \<Longrightarrow> stage (slots q ! k) \<noteq> Waiting \<Longrightarrow> j < k
   \<Longrightarrow> stage (slots q ! j) = Settled"
  unfolding queue_inv_def by blast

lemma queue_inv_init: "queue_inv init_queue"
  by (simp add: queue_inv_def init_queue_def)

lemma queue_inv_enqueue:
  assumes inv: "queue_inv q"
  shows "queue_inv (enqueue ops r q)"
proof (rule queue_invI)
  let ?new = "\<lparr>chained_on = requestQueue q, program = ops, result = r,
               performed = 0, stage = Waiting, delivered = None\<rparr>"
  let ?q = "enqueue ops r q"
  have sl: "slots ?q = slots q @ [?new]" by (simp add: enqueue_def)
  have old: "slots ?q ! k = slots q ! k" if "k < length (slots q)" for k
    using that by (simp add: sl nth_append)
  have new: "slots ?q ! length (slots q) = ?new" by (simp add: sl)
  have split: "k < length (slots q) \<or> k = length (slots q)" if "k < length (slots ?q)" for k
    using that by (auto simp: sl)
  show "requestQueue ?q = length (slots ?q)" by (simp add: enqueue_def)
  show "observed ?q = trace_from 0 (slots ?q)"
    using inv_obs[OF inv] by (simp add: sl trace_from_append) (simp add: enqueue_def)
  show "chained_on (slots ?q ! k) = k" if "k < length (slots ?q)" for k
    using split[OF that] inv_chain[OF inv, of k] inv_len[OF inv] old[of k] new by auto
  show "performed (slots ?q ! k) \<le> length (program (slots ?q ! k))" if "k < length (slots ?q)" for k
    using split[OF that] inv_bound[OF inv, of k] old[of k] new by auto
  show "performed (slots ?q ! k) = 0" if "k < length (slots ?q)" "stage (slots ?q ! k) = Waiting" for k
    using split[OF that(1)] that(2) inv_waiting[OF inv, of k] old[of k] new by auto
  show "performed (slots ?q ! k) = length (program (slots ?q ! k))"
    if "k < length (slots ?q)" "stage (slots ?q ! k) = Settled" for k
    using split[OF that(1)] that(2) inv_settled[OF inv, of k] old[of k] new by auto
  show "stage (slots ?q ! j) = Settled"
    if "k < length (slots ?q)" "stage (slots ?q ! k) \<noteq> Waiting" "j < k" for k j
  proof -
    from split[OF that(1)] that(2) new have k: "k < length (slots q)" by auto
    with that(3) have j: "j < length (slots q)" by simp
    from that(2) k have "stage (slots q ! k) \<noteq> Waiting" by (simp add: old)
    from inv_earlier[OF inv k this that(3)] j show ?thesis by (simp add: old)
  qed
qed


lemma queue_inv_later_idle:
  assumes "queue_inv q" and "k < length (slots q)" and "stage (slots q ! k) = Running"
  shows "\<forall>j. k < j \<and> j < length (slots q) \<longrightarrow> performed (slots q ! j) = 0"
proof (intro allI impI)
  fix j assume j: "k < j \<and> j < length (slots q)"
  have "stage (slots q ! j) = Waiting"
  proof (rule ccontr)
    assume "stage (slots q ! j) \<noteq> Waiting"
    from inv_earlier[OF assms(1) _ this, of k] j have "stage (slots q ! k) = Settled" by simp
    with assms(3) show False by simp
  qed
  with inv_waiting[OF assms(1), of j] j show "performed (slots q ! j) = 0" by simp
qed

lemma queue_inv_begin:
  assumes inv: "queue_inv q" and k: "k < length (slots q)" and w: "stage (slots q ! k) = Waiting"
      and f: "fulfilled q (chained_on (slots q ! k))"
  shows "queue_inv (begin_thunk k q)"
proof (rule queue_invI)
  let ?q = "begin_thunk k q"
  have len: "length (slots ?q) = length (slots q)" by (simp add: begin_thunk_def)
  have at: "slots ?q ! k = (slots q ! k)\<lparr>stage := Running\<rparr>"
    using k by (simp add: begin_thunk_def)
  have other: "slots ?q ! j = slots q ! j" if "j \<noteq> k" for j
    using that by (simp add: begin_thunk_def)
  have before: "stage (slots q ! j) = Settled" if "j < k" for j
  proof (cases k)
    case 0
    with that show ?thesis by simp
  next
    case (Suc n)
    with f inv_chain[OF inv k] have n: "stage (slots q ! n) = Settled" by (simp add: fulfilled_def)
    from Suc k have nl: "n < length (slots q)" by simp
    show ?thesis
    proof (cases "j = n")
      case True
      with n show ?thesis by simp
    next
      case False
      with that Suc have "j < n" by simp
      from inv_earlier[OF inv nl _ this] n show ?thesis by simp
    qed
  qed
  show "requestQueue ?q = length (slots ?q)"
    using inv_len[OF inv] by (simp add: begin_thunk_def)
  show "observed ?q = trace_from 0 (slots ?q)"
    using inv_obs[OF inv] k by (simp add: begin_thunk_def trace_from_update_same)
  show "chained_on (slots ?q ! j) = j" if "j < length (slots ?q)" for j
    using that inv_chain[OF inv, of j] at other[of j] len by (cases "j = k") simp_all
  show "performed (slots ?q ! j) \<le> length (program (slots ?q ! j))" if "j < length (slots ?q)" for j
    using that inv_bound[OF inv, of j] at other[of j] len by (cases "j = k") simp_all
  show "performed (slots ?q ! j) = 0" if "j < length (slots ?q)" "stage (slots ?q ! j) = Waiting" for j
    using that inv_waiting[OF inv, of j] at other[of j] len by (cases "j = k") simp_all
  show "performed (slots ?q ! j) = length (program (slots ?q ! j))"
    if "j < length (slots ?q)" "stage (slots ?q ! j) = Settled" for j
    using that inv_settled[OF inv, of j] at other[of j] len by (cases "j = k") simp_all
  show "stage (slots ?q ! i) = Settled"
    if "j < length (slots ?q)" "stage (slots ?q ! j) \<noteq> Waiting" "i < j" for j i
  proof (cases "j = k")
    case True
    with that(3) have "i \<noteq> k" by simp
    with before[of i] that(3) True show ?thesis by (simp add: other)
  next
    case False
    with that(1,2) len have j: "j < length (slots q)" and s: "stage (slots q ! j) \<noteq> Waiting"
      by (simp_all add: other)
    from inv_earlier[OF inv j s that(3)] have i: "stage (slots q ! i) = Settled" .
    with w have "i \<noteq> k" by auto
    with i show ?thesis by (simp add: other)
  qed
qed

lemma queue_inv_perform:
  assumes inv: "queue_inv q" and k: "k < length (slots q)" and r: "stage (slots q ! k) = Running"
      and p: "performed (slots q ! k) < length (program (slots q ! k))"
  shows "queue_inv (perform k q)"
proof (rule queue_invI)
  let ?q = "perform k q"
  have len: "length (slots ?q) = length (slots q)" by (simp add: perform_def)
  have at: "slots ?q ! k = (slots q ! k)\<lparr>performed := Suc (performed (slots q ! k))\<rparr>"
    using k by (simp add: perform_def)
  have other: "slots ?q ! j = slots q ! j" if "j \<noteq> k" for j
    using that by (simp add: perform_def)
  have st: "stage (slots ?q ! j) = stage (slots q ! j)" for j
    using at other[of j] by (cases "j = k") simp_all
  show "requestQueue ?q = length (slots ?q)"
    using inv_len[OF inv] by (simp add: perform_def)
  show "observed ?q = trace_from 0 (slots ?q)"
    using trace_from_perform[OF k p queue_inv_later_idle[OF inv k r], of 0] inv_obs[OF inv]
    by (simp add: perform_def)
  show "chained_on (slots ?q ! j) = j" if "j < length (slots ?q)" for j
    using that inv_chain[OF inv, of j] at other[of j] len by (cases "j = k") simp_all
  show "performed (slots ?q ! j) \<le> length (program (slots ?q ! j))" if "j < length (slots ?q)" for j
    using that inv_bound[OF inv, of j] at other[of j] len p by (cases "j = k") simp_all
  show "performed (slots ?q ! j) = 0" if "j < length (slots ?q)" "stage (slots ?q ! j) = Waiting" for j
    using that inv_waiting[OF inv, of j] at other[of j] len r by (cases "j = k") simp_all
  show "performed (slots ?q ! j) = length (program (slots ?q ! j))"
    if "j < length (slots ?q)" "stage (slots ?q ! j) = Settled" for j
    using that inv_settled[OF inv, of j] at other[of j] len r by (cases "j = k") simp_all
  show "stage (slots ?q ! i) = Settled"
    if "j < length (slots ?q)" "stage (slots ?q ! j) \<noteq> Waiting" "i < j" for j i
    using that inv_earlier[OF inv, of j i] len by (simp add: st)
qed

lemma queue_inv_settle:
  assumes inv: "queue_inv q" and k: "k < length (slots q)" and r: "stage (slots q ! k) = Running"
      and p: "performed (slots q ! k) = length (program (slots q ! k))"
  shows "queue_inv (settle k q)"
proof (rule queue_invI)
  let ?q = "settle k q"
  have len: "length (slots ?q) = length (slots q)" by (simp add: settle_def)
  have at: "slots ?q ! k = (slots q ! k)\<lparr>stage := Settled, delivered := Some (result (slots q ! k))\<rparr>"
    using k by (simp add: settle_def)
  have other: "slots ?q ! j = slots q ! j" if "j \<noteq> k" for j
    using that by (simp add: settle_def)
  show "requestQueue ?q = length (slots ?q)"
    using inv_len[OF inv] by (simp add: settle_def)
  show "observed ?q = trace_from 0 (slots ?q)"
    using inv_obs[OF inv] k by (simp add: settle_def trace_from_update_same)
  show "chained_on (slots ?q ! j) = j" if "j < length (slots ?q)" for j
    using that inv_chain[OF inv, of j] at other[of j] len by (cases "j = k") simp_all
  show "performed (slots ?q ! j) \<le> length (program (slots ?q ! j))" if "j < length (slots ?q)" for j
    using that inv_bound[OF inv, of j] at other[of j] len by (cases "j = k") simp_all
  show "performed (slots ?q ! j) = 0" if "j < length (slots ?q)" "stage (slots ?q ! j) = Waiting" for j
    using that inv_waiting[OF inv, of j] at other[of j] len by (cases "j = k") simp_all
  show "performed (slots ?q ! j) = length (program (slots ?q ! j))"
    if "j < length (slots ?q)" "stage (slots ?q ! j) = Settled" for j
    using that inv_settled[OF inv, of j] at other[of j] len p by (cases "j = k") simp_all
  show "stage (slots ?q ! i) = Settled"
    if "j < length (slots ?q)" "stage (slots ?q ! j) \<noteq> Waiting" "i < j" for j i
  proof -
    have "stage (slots q ! j) \<noteq> Waiting"
      using that(2) r at other[of j] by (cases "j = k") simp_all
    from inv_earlier[OF inv _ this that(3)] that(1) len
    have "stage (slots q ! i) = Settled" by simp
    then show ?thesis using at other[of i] by (cases "i = k") simp_all
  qed
qed

lemma queue_inv_step: "step q q' \<Longrightarrow> queue_inv q \<Longrightarrow> queue_inv q'"
proof (induction rule: step.induct)
  case (admit q ops r)
  then show ?case by (rule queue_inv_enqueue)
next
  case (start k q)
  from start(4) start(1-3) show ?case by (rule queue_inv_begin)
next
  case (operate k q)
  from operate(4) operate(1-3) show ?case by (rule queue_inv_perform)
next
  case (finish k q)
  from finish(4) finish(1-3) show ?case by (rule queue_inv_settle)
qed

lemma reachable_inv: "reachable q \<Longrightarrow> queue_inv q"
  unfolding reachable_def
proof (induction rule: rtranclp_induct)
  case base
  show ?case by (rule queue_inv_init)
next
  case (step y z)
  from step(2) step(3) show ?case by (rule queue_inv_step)
qed







lemma reachable_step: "reachable q \<Longrightarrow> step\<^sup>*\<^sup>* q q' \<Longrightarrow> reachable q'"
  unfolding reachable_def by (rule rtranclp_trans)

lemma reachable_admit: "reachable q \<Longrightarrow> reachable (enqueue ops r q)"
  unfolding reachable_def by (erule rtranclp.rtrancl_into_rtrancl) (rule step.admit)

section \<open>The retry loop\<close>

lemma fetch_history: "fetch backend c w = (r, w') \<Longrightarrow> history w' = history w @ [c]"
  by (auto simp: fetch_def Let_def)

lemma fetch_timeout_history: "fetch_timeout backend c ms w = (r, w') \<Longrightarrow> history w' = history w @ [c]"
  by (auto simp: fetch_timeout_def Let_def split: if_splits)

lemma setMessage_history: "setMessage backend p w = (b, w') \<Longrightarrow> history w' = history w @ [SetChatMessage p]"
  by (auto simp: setMessage_def dest: fetch_history split: prod.splits fetch_result.splits)

lemma wait_poll_history:
  "\<exists>n. history (wait_poll backend start maxWaitMs w) = history w @ replicate n SessionsCreate"
proof (induction backend start maxWaitMs w rule: wait_poll.induct)
  case (1 backend start maxWaitMs w)
  show ?case
  proof (cases "now w - start < maxWaitMs")
    case False
    then show ?thesis by (subst wait_poll.simps) (simp add: exI[of _ 0])
  next
    case True
    obtain r w' where f: "fetch_timeout backend SessionsCreate 5000 w = (r, w')"
      by (cases "fetch_timeout backend SessionsCreate 5000 w")
    have h: "history w' = history w @ [SessionsCreate]" by (rule fetch_timeout_history[OF f])
    have again: "\<exists>n. history (wait_poll backend start maxWaitMs (sleep 1500 w')) = history w @ replicate n SessionsCreate"
      if "\<exists>n. history (wait_poll backend start maxWaitMs (sleep 1500 w')) = history (sleep 1500 w') @ replicate n SessionsCreate"
    proof -
      from that obtain n where "history (wait_poll backend start maxWaitMs (sleep 1500 w')) = history (sleep 1500 w') @ replicate n SessionsCreate" ..
      then have "history (wait_poll backend start maxWaitMs (sleep 1500 w')) = history w @ replicate (Suc n) SessionsCreate"
        by (simp add: sleep_def h replicate_app_Cons_same)
      then show ?thesis ..
    qed
    have unfold: "wait_poll backend start maxWaitMs w =
        (case r of
           HttpResponse status body \<Rightarrow>
             if ok status then w' else wait_poll backend start maxWaitMs (sleep 1500 w')
         | NetworkError e \<Rightarrow> wait_poll backend start maxWaitMs (sleep 1500 w'))"
      using True f by (subst wait_poll.simps) simp
    show ?thesis
    proof (cases r)
      case (NetworkError e)
      from "1.IH"(1)[OF True f[symmetric] NetworkError] again
      show ?thesis by (simp add: unfold NetworkError)
    next
      case (HttpResponse status body)
      show ?thesis
      proof (cases "ok status")
        case ok: True
        have "history w' = history w @ replicate 1 SessionsCreate" using h by simp
        then have "\<exists>n. history w' = history w @ replicate n SessionsCreate" ..
        then show ?thesis by (simp add: unfold HttpResponse ok)
      next
        case nok: False
        from "1.IH"(2)[OF True f[symmetric] HttpResponse nok] again
        show ?thesis by (simp add: unfold HttpResponse nok)
      qed
    qed
  qed
qed

lemma wait_idle_history:
  "\<exists>n. history (waitForAgentIdle backend maxWaitMs w) = history w @ replicate n SessionsCreate"
  unfolding waitForAgentIdle_def by (rule wait_poll_history)


lemma send_attempts_unfold:
  assumes "attempt < maxRetries"
      and "setMessage backend prompt (if 0 < attempt then waitForAgentIdle backend 30000 w else w) = (msgOk, w2)"
  shows "send_attempts backend prompt maxRetries attempt w =
     (if \<not> msgOk then
        (if attempt < maxRetries - 1
         then send_attempts backend prompt maxRetries (Suc attempt) (waitForAgentIdle backend 15000 w2)
         else (Inl (Error ''Failed to send message to Rovo Dev after retries''), w2))
      else
        (case fetch backend StreamChat w2 of
           (NetworkError e, w3) \<Rightarrow> (Inl (TypeError e), w3)
         | (HttpResponse status body, w3) \<Rightarrow>
             if ok status then (Inr (status, body), w3)
             else if status = 409 then send_attempts backend prompt maxRetries (Suc attempt) w3
             else (Inr (status, body), w3)))"
  using assms by (subst send_attempts.simps) (simp add: Let_def)

lemma send_attempts_exhausted:
  "\<not> attempt < maxRetries \<Longrightarrow>
     send_attempts backend prompt maxRetries attempt w
       = (Inl (Error ''Rovo Dev agent remained busy after all retries''), w)"
  by (subst send_attempts.simps) simp

lemma not_ok_409: "\<not> ok 409"
  by (simp add: ok_def)


lemma handlers_on_status:
  assumes "sendAndStream backend prompt 4 w = (Inr (status, body), w')" and "\<not> ok status"
  shows "handleStreamingCompletion backend parse prompt w = (status_error status, w')"
    and "handleNonStreamingCompletion backend parse prompt w = (status_error status, w')"
  using assms
  by (simp_all add: handleStreamingCompletion_def handleNonStreamingCompletion_def split: option.splits)

lemma wait_idle_probe_ok:
  assumes "fetch_timeout backend SessionsCreate 5000 w = (HttpResponse s b, w')" and "ok s" and "0 < maxWaitMs"
  shows "waitForAgentIdle backend maxWaitMs w = w'"
  unfolding waitForAgentIdle_def using assms by (subst wait_poll.simps) simp

lemma send_attempts_extends:
  "\<exists>rest. history (snd (send_attempts backend prompt maxRetries attempt w)) = history w @ rest"
proof (induction "maxRetries - attempt" arbitrary: attempt w)
  case 0
  then have "\<not> attempt < maxRetries" by simp
  from send_attempts_exhausted[OF this, of backend prompt w] show ?case by simp
next
  case (Suc n)
  then have lt: "attempt < maxRetries" and n: "n = maxRetries - Suc attempt" by simp_all
  let ?w1 = "if 0 < attempt then waitForAgentIdle backend 30000 w else w"
  obtain k where h1: "history ?w1 = history w @ replicate k SessionsCreate"
    using wait_idle_history[of backend 30000 w] by (cases "0 < attempt") (auto intro: that[of 0])
  obtain msgOk w2 where m: "setMessage backend prompt ?w1 = (msgOk, w2)"
    by (cases "setMessage backend prompt ?w1")
  have h2: "history w2 = history w @ replicate k SessionsCreate @ [SetChatMessage prompt]"
    using setMessage_history[OF m] h1 by simp
  note u = send_attempts_unfold[OF lt m]
  show ?case
  proof (cases msgOk)
    case False
    show ?thesis
    proof (cases "attempt < maxRetries - 1")
      case True
      obtain j where hw: "history (waitForAgentIdle backend 15000 w2) = history w2 @ replicate j SessionsCreate"
        using wait_idle_history[of backend 15000 w2] by blast
      from Suc.hyps(1)[OF n, of "waitForAgentIdle backend 15000 w2"] obtain rest where
        "history (snd (send_attempts backend prompt maxRetries (Suc attempt) (waitForAgentIdle backend 15000 w2)))
           = history (waitForAgentIdle backend 15000 w2) @ rest" ..
      with u False True hw h2 show ?thesis by simp
    next
      case last: False
      with u False h2 show ?thesis by simp
    qed
  next
    case True
    obtain r w3 where f: "fetch backend StreamChat w2 = (r, w3)"
      by (cases "fetch backend StreamChat w2")
    have h3: "history w3 = history w @ replicate k SessionsCreate @ [SetChatMessage prompt, StreamChat]"
      using fetch_history[OF f] h2 by simp
    show ?thesis
    proof (cases r)
      case (NetworkError e)
      with u True f h3 show ?thesis by simp
    next
      case (HttpResponse status body)
      show ?thesis
      proof (cases "\<not> ok status \<and> status = 409")
        case False
        with u True f h3 HttpResponse show ?thesis by auto
      next
        case again: True
        from Suc.hyps(1)[OF n, of w3] obtain rest where
          "history (snd (send_attempts backend prompt maxRetries (Suc attempt) w3)) = history w3 @ rest" ..
        with u True f h3 HttpResponse again show ?thesis by simp
      qed
    qed
  qed
qed

lemma round_busy:
  assumes "attempt < maxRetries"
      and "setMessage backend prompt (if 0 < attempt then waitForAgentIdle backend 30000 w else w) = (True, w2)"
      and "fetch backend StreamChat w2 = (HttpResponse 409 body, w3)"
  shows "send_attempts backend prompt maxRetries attempt w
       = send_attempts backend prompt maxRetries (Suc attempt) w3"
  by (simp add: send_attempts_unfold[OF assms(1,2)] assms(3) not_ok_409)

lemma round_rejected:
  assumes "Suc attempt < maxRetries"
      and "setMessage backend prompt (if 0 < attempt then waitForAgentIdle backend 30000 w else w) = (False, w2)"
  shows "send_attempts backend prompt maxRetries attempt w
       = send_attempts backend prompt maxRetries (Suc attempt) (waitForAgentIdle backend 15000 w2)"
proof -
  from assms(1) have lt: "attempt < maxRetries" and l1: "attempt < maxRetries - 1" by simp_all
  show ?thesis using l1 by (simp add: send_attempts_unfold[OF lt assms(2)])
qed

lemma round_streams:
  assumes "attempt < maxRetries"
      and "setMessage backend prompt (if 0 < attempt then waitForAgentIdle backend 30000 w else w) = (True, w2)"
      and "fetch backend StreamChat w2 = (HttpResponse status body, w3)"
      and "ok status"
  shows "send_attempts backend prompt maxRetries attempt w = (Inr (status, body), w3)"
  by (simp add: send_attempts_unfold[OF assms(1,2)] assms(3,4))












section \<open>The preamble of the response lifecycle\<close>

text \<open>
  Claim C8. In the response-lifecycle streaming transcoder the four preamble events
  (created, in_progress, output_item.added, content_part.added) are emitted at most once
  per call, behind one flag, and only with the first extracted text fragment, right
  before its delta; closing events are emitted only after the preamble; and a call whose
  backend stream yields no extracted text emits no event at all.
\<close>

theorem preamble_gating:
  "sendPreamble (sendPreamble st) = sendPreamble st
   \<and> (preambleSent st \<longrightarrow> sendPreamble st = st)
   \<and> (let evs = events_of (stream_responses parse chunks) in
        (\<forall>p \<in> set preamble. count_list evs p \<le> 1)
      \<and> (list_ex is_text_delta evs \<longrightarrow>
            (\<exists>t rest. evs = preamble @ OutputTextDelta t # rest \<and> (\<forall>p \<in> set preamble. p \<notin> set rest)))
      \<and> (list_ex is_closing evs \<longrightarrow> take 4 evs = preamble)
      \<and> (\<not> list_ex is_text_delta evs \<longrightarrow> evs = []))"
proof -
  have flag: "preambleSent (sendPreamble st)"
    by (simp add: sendPreamble_def emit_def)
  have idem: "sendPreamble (sendPreamble st) = sendPreamble st"
    using flag by (subst (1) sendPreamble_def) simp
  have same: "preambleSent st \<longrightarrow> sendPreamble st = st"
    by (simp add: sendPreamble_def)
  let ?evs = "events_of (stream_responses parse chunks)"
  from events_shape[of parse chunks] obtain ts c where
    e: "?evs = (if ts = [] then [] else preamble @ map OutputTextDelta ts @ c)" and
    c: "case stream_responses parse chunks of
           Inl e \<Rightarrow> c = []
         | Inr st \<Rightarrow> c = closing (concat (map js_to_string ts)) (usageData st)"
    by blast
  from c obtain ft u where c': "c = [] \<or> c = closing ft u"
    by (cases "stream_responses parse chunks") auto
  have once: "\<forall>p \<in> set preamble. count_list ?evs p \<le> 1"
  proof (cases "ts = []")
    case True
    with e show ?thesis by simp
  next
    case False
    with e c' count_preamble[of _ ts ft u] count_preamble'[of _ ts] show ?thesis
      by auto
  qed
  have lazy: "list_ex is_text_delta ?evs \<longrightarrow>
      (\<exists>t rest. ?evs = preamble @ OutputTextDelta t # rest \<and> (\<forall>p \<in> set preamble. p \<notin> set rest))"
  proof (cases ts)
    case Nil
    with e show ?thesis by simp
  next
    case (Cons t ts')
    with e have "?evs = preamble @ OutputTextDelta t # (map OutputTextDelta ts' @ c)" by simp
    moreover have "\<forall>p \<in> set preamble. p \<notin> set (map OutputTextDelta ts' @ c)"
      using c' by (auto simp: preamble_def closing_def)
    ultimately show ?thesis by blast
  qed
  have close: "list_ex is_closing ?evs \<longrightarrow> take 4 ?evs = preamble"
  proof (cases "ts = []")
    case True
    with e show ?thesis by simp
  next
    case False
    with e show ?thesis by (simp add: preamble_def)
  qed
  have none: "\<not> list_ex is_text_delta ?evs \<longrightarrow> ?evs = []"
  proof (cases ts)
    case Nil
    with e show ?thesis by simp
  next
    case (Cons t ts')
    with e show ?thesis by simp
  qed
  from idem same once lazy close none show ?thesis
    by (simp only: Let_def simp_thms)
qed

theorem preamble_gating_witness:
  \<open>list_ex is_text_delta (events_of (stream_responses json_parse [''data: {"text_delta":"a"}'']))
   \<and> (\<exists>t rest. events_of (stream_responses json_parse [''data: {"text_delta":"a"}''])
         = preamble @ OutputTextDelta t # rest)
   \<and> events_of (stream_responses json_parse [''data: {"done":true}'']) = []\<close>
proof -
  have h1: \<open>list_ex is_text_delta (events_of (stream_responses json_parse [''data: {"text_delta":"a"}'']))\<close>
    by code_simp
  have h2: \<open>\<not> list_ex is_text_delta (events_of (stream_responses json_parse [''data: {"done":true}'']))\<close>
    by code_simp
  from preamble_gating [of init_resp json_parse \<open>[''data: {"text_delta":"a"}'']\<close>] h1
  have \<open>\<exists>t rest. events_of (stream_responses json_parse [''data: {"text_delta":"a"}''])
         = preamble @ OutputTextDelta t # rest\<close>
    by (simp only: Let_def) blast
  moreover from preamble_gating [of init_resp json_parse \<open>[''data: {"done":true}'']\<close>] h2
  have \<open>events_of (stream_responses json_parse [''data: {"done":true}'']) = []\<close>
    by (simp only: Let_def) blast
  ultimately show ?thesis using h1 by blast
qed

section \<open>Terminal events\<close>




section \<open>Empty text\<close>

lemma js_get_Some_obj: "js_get data k = Some v \<Longrightarrow> \<exists>kvs. data = JObj kvs"
  by (cases data) simp_all

lemma empty_text_null:
  assumes "empty_text_event data"
  shows "extractText data = JNull"
proof -
  from assms obtain kvs where o: "data = JObj kvs"
    unfolding empty_text_event_def using js_get_Some_obj by blast
  then have n: "\<not> not_an_object data" by (simp add: not_an_object_def)
  from assms show ?thesis
    unfolding empty_text_event_def
  proof (elim disjE conjE)
    assume "js_get data ''event_kind'' = Some (JStr ''part_start'')"
      "js_get_opt (js_get data ''part'') ''part_kind'' = Some (JStr ''text'')"
      "js_get_opt (js_get data ''part'') ''content'' = Some (JStr [])"
    with n show ?thesis by (simp add: extractText_def)
  next
    assume "js_get data ''event_kind'' = Some (JStr ''part_delta'')"
      "js_get_opt (js_get data ''delta'') ''part_delta_kind'' = Some (JStr ''text'')"
      "js_get_opt (js_get data ''delta'') ''content_delta'' = Some (JStr [])"
    with n show ?thesis by (simp add: extractText_def)
  qed
qed

text \<open>
  Claim C9, as stated: for a \<^verbatim>\<open>part_start\<close> or \<^verbatim>\<open>part_delta\<close> event of text kind whose text
  is the empty string, \<^verbatim>\<open>extractText\<close> returns \<^verbatim>\<open>null\<close> and neither transcoder emits a
  delta, so that every content delta emitted carries a non-empty text fragment. The last
  part fails: \<^verbatim>\<open>extractText\<close> returns the content field when it is truthy, whatever its
  type, and an empty array is truthy. Both transcoders emit it as a delta; it is not a
  text, and its string form, which the lifecycle transcoder appends to the full text, is
  empty.
\<close>

theorem nonempty_text_counterexample:
  \<open>extractText (JObj [(''event_kind'', JStr ''part_delta''),
        (''delta'', JObj [(''part_delta_kind'', JStr ''text''), (''content_delta'', JArr [])])]) = JArr []
   \<and> js_to_string (JArr []) = []
   \<and> stream_completion json_parse
        [''data: {"event_kind":"part_delta","delta":{"part_delta_kind":"text","content_delta":[]}}'']
       = [ContentDelta (JArr []), FinishStop, DoneTerminator]
   \<and> events_of (stream_responses json_parse
        [''data: {"event_kind":"part_delta","delta":{"part_delta_kind":"text","content_delta":[]}}''])
       = preamble @ [OutputTextDelta (JArr [])]
         @ closing [] \<lparr>input_tokens = JNum 0, output_tokens = JNum 0, total_tokens = JNum 0\<rparr>\<close>
  by code_simp

text \<open>
  Claim C9, amended. For a \<^verbatim>\<open>part_start\<close> or \<^verbatim>\<open>part_delta\<close> event of text kind whose text
  is the empty string, \<^verbatim>\<open>extractText\<close> returns \<^verbatim>\<open>null\<close>, and neither transcoder emits a
  delta for its line. Every content delta that either transcoder emits carries a truthy
  value, so never the empty string: a delta that carries a string carries a non-empty
  one.
\<close>

theorem empty_text_never_emitted:
  assumes "empty_text_event data" and "data_payload line = Some jsonStr" and "parse jsonStr = Some data"
  shows "extractText data = JNull
       \<and> (\<forall>t. ContentDelta t \<notin> set (fst (process_line parse line d)))
       \<and> (\<exists>st'. resp_line parse line st = Inr st' \<and> emitted st' = emitted st)
       \<and> (\<forall>t. ContentDelta t \<in> set (stream_completion parse chunks) \<longrightarrow> truthy t \<and> t \<noteq> JStr [])
       \<and> (\<forall>t. OutputTextDelta t \<in> set (events_of (stream_responses parse chunks)) \<longrightarrow> truthy t \<and> t \<noteq> JStr [])
       \<and> (\<forall>s. ContentDelta (JStr s) \<in> set (stream_completion parse chunks) \<longrightarrow> s \<noteq> [])
       \<and> (\<forall>s. OutputTextDelta (JStr s) \<in> set (events_of (stream_responses parse chunks)) \<longrightarrow> s \<noteq> [])"
proof -
  have null: "extractText data = JNull" by (rule empty_text_null[OF assms(1)])
  from assms(1) obtain kvs where o: "data = JObj kvs"
    unfolding empty_text_event_def using js_get_Some_obj by blast
  have chat: "\<forall>t. ContentDelta t \<notin> set (fst (process_line parse line d))"
    using assms(2,3) null by (simp add: process_line_def)
  have resp: "\<exists>st'. resp_line parse line st = Inr st' \<and> emitted st' = emitted st"
    using assms(2,3) null o by (simp add: resp_line_def emit_text_def Let_def)
  have e: "truthy t \<Longrightarrow> t \<noteq> JStr []" for t by auto
  have "list_all (\<lambda>c. case c of ContentDelta t \<Rightarrow> truthy t | _ \<Rightarrow> True) (stream_completion parse chunks)"
    using transcode_lines_counts [of parse "split_nl (concat chunks)"]
    by (simp add: stream_completion_lines)
  then have all_chat: "\<forall>t. ContentDelta t \<in> set (stream_completion parse chunks) \<longrightarrow> truthy t \<and> t \<noteq> JStr []"
    using e by (auto simp: list_all_iff)
  from events_shape[of parse chunks] obtain ts c where
    t: "list_all truthy ts" and
    ev: "events_of (stream_responses parse chunks) = (if ts = [] then [] else preamble @ map OutputTextDelta ts @ c)" and
    c: "case stream_responses parse chunks of
           Inl e \<Rightarrow> c = []
         | Inr st \<Rightarrow> c = closing (concat (map js_to_string ts)) (usageData st)"
    by blast
  from c obtain ft u where c': "c = [] \<or> c = closing ft u"
    by (cases "stream_responses parse chunks") auto
  have all_resp: "\<forall>t. OutputTextDelta t \<in> set (events_of (stream_responses parse chunks)) \<longrightarrow> truthy t \<and> t \<noteq> JStr []"
  proof (intro allI impI)
    fix t assume "OutputTextDelta t \<in> set (events_of (stream_responses parse chunks))"
    with ev c' have "t \<in> set ts"
      by (cases "ts = []") (auto simp: preamble_def closing_def)
    with t have "truthy t" by (simp add: list_all_iff)
    with e show "truthy t \<and> t \<noteq> JStr []" by blast
  qed
  from all_chat have str_chat: "\<forall>s. ContentDelta (JStr s) \<in> set (stream_completion parse chunks) \<longrightarrow> s \<noteq> []"
    by blast
  from all_resp have str_resp:
    "\<forall>s. OutputTextDelta (JStr s) \<in> set (events_of (stream_responses parse chunks)) \<longrightarrow> s \<noteq> []"
    by blast
  from null chat resp all_chat all_resp str_chat str_resp show ?thesis by blast
qed

theorem empty_text_never_emitted_witness:
  \<open>extractText (JObj [(''event_kind'', JStr ''part_delta''),
        (''delta'', JObj [(''part_delta_kind'', JStr ''text''), (''content_delta'', JStr [])])]) = JNull
   \<and> fst (process_line json_parse
        ''data: {"event_kind":"part_delta","delta":{"part_delta_kind":"text","content_delta":""}}'' False) = []\<close>
proof -
  have h1: \<open>empty_text_event (JObj [(''event_kind'', JStr ''part_delta''),
        (''delta'', JObj [(''part_delta_kind'', JStr ''text''), (''content_delta'', JStr [])])])\<close>
    by code_simp
  have h2: \<open>data_payload ''data: {"event_kind":"part_delta","delta":{"part_delta_kind":"text","content_delta":""}}''
      = Some ''{"event_kind":"part_delta","delta":{"part_delta_kind":"text","content_delta":""}}''\<close>
    by code_simp
  have h3: \<open>json_parse ''{"event_kind":"part_delta","delta":{"part_delta_kind":"text","content_delta":""}}''
      = Some (JObj [(''event_kind'', JStr ''part_delta''),
        (''delta'', JObj [(''part_delta_kind'', JStr ''text''), (''content_delta'', JStr [])])])\<close>
    by code_simp
  have v: \<open>fst (process_line json_parse
        ''data: {"event_kind":"part_delta","delta":{"part_delta_kind":"text","content_delta":""}}'' False) = []\<close>
    by code_simp
  from empty_text_never_emitted [where parse = json_parse, OF h1 h2 h3] v show ?thesis by blast
qed

section \<open>The worked example\<close>

text \<open>
  Claim C5. Given the three backend lines with the text deltas \<^verbatim>\<open>Hel\<close> and \<^verbatim>\<open>lo\<close> and
  then the usage event, the chat-completions streaming transcoder emits the two content
  deltas in that order, then one stop chunk, then the \<^verbatim>\<open>data: [DONE]\<close> terminator, and
  nothing more when the body ends; the non-streaming aggregate has the content
  \<^verbatim>\<open>Hello\<close>.
\<close>

theorem hello_example:
  \<open>processSSELines json_parse
      [''data: {"event_kind":"part_delta","delta":{"part_delta_kind":"text","content_delta":"Hel"}}'',
       ''data: {"event_kind":"part_delta","delta":{"part_delta_kind":"text","content_delta":"lo"}}'',
       ''data: {"input_tokens":3,"output_tokens":2}''] False
     = ([ContentDelta (JStr ''Hel''), ContentDelta (JStr ''lo''), FinishStop, DoneTerminator], True)
   \<and> stream_completion json_parse
      [''data: {"event_kind":"part_delta","delta":{"part_delta_kind":"text","content_delta":"Hel"}}'' @ [CHR 0x0A]
       @ ''data: {"event_kind":"part_delta","delta":{"part_delta_kind":"text","content_delta":"lo"}}'' @ [CHR 0x0A]
       @ ''data: {"input_tokens":3,"output_tokens":2}'' @ [CHR 0x0A]]
     = [ContentDelta (JStr ''Hel''), ContentDelta (JStr ''lo''), FinishStop, DoneTerminator]
   \<and> aggregate_content json_parse
      [''data: {"event_kind":"part_delta","delta":{"part_delta_kind":"text","content_delta":"Hel"}}'' @ [CHR 0x0A]
       @ ''data: {"event_kind":"part_delta","delta":{"part_delta_kind":"text","content_delta":"lo"}}'' @ [CHR 0x0A]
       @ ''data: {"input_tokens":3,"output_tokens":2}'' @ [CHR 0x0A]]
     = ''Hello''\<close>
  by code_simp

theorem hello_example_witness:
  \<open>aggregate_content json_parse
      [''data: {"event_kind":"part_delta","delta":{"part_delta_kind":"text","content_delta":"Hel"}}'' @ [CHR 0x0A]
       @ ''data: {"event_kind":"part_delta","delta":{"part_delta_kind":"text","content_delta":"lo"}}'' @ [CHR 0x0A]
       @ ''data: {"input_tokens":3,"output_tokens":2}'' @ [CHR 0x0A]]
     = ''Hello''\<close>
  using hello_example by blast

section \<open>Serialization\<close>

text \<open>
  Claim C1. For every sequence of client calls admitted through \<^verbatim>\<open>enqueue\<close>, in every
  state the event loop can reach: at most one thunk is running; a thunk has begun only
  if every call submitted before it has settled, with all its operations performed; a
  thunk that has not begun has performed nothing; and the backend operations observed so
  far are those of the calls in submission order, each call's operations together and
  in order.
\<close>

theorem fifo_no_overlap:
  assumes "reachable q"
  shows "(\<forall>i j. i < length (slots q) \<and> j < length (slots q)
            \<and> stage (slots q ! i) = Running \<and> stage (slots q ! j) = Running \<longrightarrow> i = j)
       \<and> (\<forall>k j. k < length (slots q) \<and> stage (slots q ! k) \<noteq> Waiting \<and> j < k
            \<longrightarrow> stage (slots q ! j) = Settled \<and> performed (slots q ! j) = length (program (slots q ! j)))
       \<and> (\<forall>k. k < length (slots q) \<and> stage (slots q ! k) = Waiting \<longrightarrow> performed (slots q ! k) = 0)
       \<and> observed q = trace_from 0 (slots q)
       \<and> sorted (map fst (observed q))"
proof -
  have inv: "queue_inv q" by (rule reachable_inv[OF assms])
  have one: "i = j"
    if "i < length (slots q)" "j < length (slots q)"
       "stage (slots q ! i) = Running" "stage (slots q ! j) = Running" for i j
  proof (rule ccontr)
    assume "i \<noteq> j"
    then consider "i < j" | "j < i" by linarith
    then show False
    proof cases
      case 1
      from inv_earlier[OF inv that(2) _ 1] that(3,4) show False by simp
    next
      case 2
      from inv_earlier[OF inv that(1) _ 2] that(3,4) show False by simp
    qed
  qed
  have earlier: "stage (slots q ! j) = Settled \<and> performed (slots q ! j) = length (program (slots q ! j))"
    if "k < length (slots q)" "stage (slots q ! k) \<noteq> Waiting" "j < k" for k j
  proof -
    from inv_earlier[OF inv that] have s: "stage (slots q ! j) = Settled" .
    from that(1,3) have "j < length (slots q)" by simp
    from inv_settled[OF inv this s] s show ?thesis by simp
  qed
  have idle: "performed (slots q ! k) = 0"
    if "k < length (slots q)" "stage (slots q ! k) = Waiting" for k
    using inv_waiting[OF inv that] .
  have obs: "observed q = trace_from 0 (slots q)" by (rule inv_obs[OF inv])
  have "sorted (map fst (observed q))" unfolding obs by (rule trace_from_sorted)
  with one earlier idle obs show ?thesis by blast
qed

theorem fifo_no_overlap_witness:
  "reachable (perform 0 (begin_thunk 0
      (enqueue [StreamChat] (1::nat) (enqueue [SetChatMessage ''a'', StreamChat] 0 init_queue))))
   \<and> observed (perform 0 (begin_thunk 0
      (enqueue [StreamChat] (1::nat) (enqueue [SetChatMessage ''a'', StreamChat] 0 init_queue))))
     = [(0, SetChatMessage ''a'')]
   \<and> sorted (map fst (observed (perform 0 (begin_thunk 0
      (enqueue [StreamChat] (1::nat) (enqueue [SetChatMessage ''a'', StreamChat] 0 init_queue))))))"
proof -
  let ?q1 = "enqueue [SetChatMessage ''a'', StreamChat] (0::nat) init_queue"
  let ?q2 = "enqueue [StreamChat] (1::nat) ?q1"
  let ?q3 = "begin_thunk 0 ?q2"
  let ?q4 = "perform 0 ?q3"
  have "reachable (init_queue :: (call, nat) queue)" by (simp add: reachable_def)
  then have "reachable ?q1" by (rule reachable_admit)
  then have r2: "reachable ?q2" by (rule reachable_admit)
  have "step ?q2 ?q3"
    by (rule step.start) (simp_all add: enqueue_def init_queue_def fulfilled_def)
  moreover have "step ?q3 ?q4"
    by (rule step.operate) (simp_all add: begin_thunk_def enqueue_def init_queue_def)
  ultimately have "step\<^sup>*\<^sup>* ?q2 ?q4" by simp
  with r2 have r4: "reachable ?q4" by (rule reachable_step)
  have o: "observed ?q4 = [(0, SetChatMessage ''a'')]"
    by (simp add: perform_def begin_thunk_def enqueue_def init_queue_def)
  from fifo_no_overlap [OF r4] r4 o show ?thesis by simp
qed

section \<open>Retry and hard failure\<close>

text \<open>
  Claim C7. At every attempt of a call, when the prompt was accepted and \<^verbatim>\<open>stream_chat\<close>
  answers with a status that is neither a success nor 409, \<^verbatim>\<open>sendAndStream\<close> returns that
  response at once: the failing \<^verbatim>\<open>stream_chat\<close> is the last backend call of the client
  call, and the handlers answer with one 502 \<^verbatim>\<open>proxy_error\<close> that names the status.
\<close>

theorem hard_failure_not_retried:
  assumes reach: "sendAndStream backend prompt maxRetries w0 = send_attempts backend prompt maxRetries attempt w"
      and lt: "attempt < maxRetries"
      and m: "setMessage backend prompt (if 0 < attempt then waitForAgentIdle backend 30000 w else w) = (True, w2)"
      and f: "fetch backend StreamChat w2 = (HttpResponse status body, w3)"
      and nok: "\<not> ok status"
      and nb: "status \<noteq> 409"
  shows "sendAndStream backend prompt maxRetries w0 = (Inr (status, body), w3)
       \<and> history w3 = history w2 @ [StreamChat]
       \<and> (maxRetries = 4 \<longrightarrow>
            handleStreamingCompletion backend parse prompt w0
              = (JsonError 502 (''Rovo Dev stream_chat returned '' @ show_nat status) ''proxy_error'', w3)
          \<and> handleNonStreamingCompletion backend parse prompt w0
              = (JsonError 502 (''Rovo Dev stream_chat returned '' @ show_nat status) ''proxy_error'', w3))"
proof -
  have r: "sendAndStream backend prompt maxRetries w0 = (Inr (status, body), w3)"
    by (simp add: reach send_attempts_unfold[OF lt m] f nok nb)
  have h: "history w3 = history w2 @ [StreamChat]" by (rule fetch_history[OF f])
  have "handleStreamingCompletion backend parse prompt w0 = (status_error status, w3)
      \<and> handleNonStreamingCompletion backend parse prompt w0 = (status_error status, w3)"
    if "maxRetries = 4"
    using handlers_on_status[OF r[unfolded that] nok] by simp
  with r h show ?thesis by (simp add: status_error_def)
qed

theorem hard_failure_not_retried_witness:
  "handleStreamingCompletion failing_backend json_parse ''hi'' \<lparr>history = [], now = 0\<rparr>
     = (JsonError 502 ''Rovo Dev stream_chat returned 500'' ''proxy_error'',
        \<lparr>history = [SetChatMessage ''hi'', StreamChat], now = 10\<rparr>)"
proof -
  let ?w0 = "\<lparr>history = [], now = 0\<rparr>"
  let ?w2 = "\<lparr>history = [SetChatMessage ''hi''], now = 5\<rparr>"
  let ?w3 = "\<lparr>history = [SetChatMessage ''hi'', StreamChat], now = 10\<rparr>"
  have reach: "sendAndStream failing_backend ''hi'' 4 ?w0 = send_attempts failing_backend ''hi'' 4 0 ?w0"
    by (simp add: sendAndStream_def)
  have lt: "(0::nat) < 4" by simp
  have m: "setMessage failing_backend ''hi'' (if 0 < (0::nat) then waitForAgentIdle failing_backend 30000 ?w0 else ?w0)
      = (True, ?w2)"
    by (simp add: setMessage_def fetch_def failing_backend_def replies_def ok_def)
  have f: "fetch failing_backend StreamChat ?w2 = (HttpResponse 500 None, ?w3)"
    by (simp add: fetch_def failing_backend_def replies_def)
  have nok: "\<not> ok 500" by (simp add: ok_def)
  have nb: "(500::nat) \<noteq> 409" by simp
  have s: "show_nat 500 = ''500''" by code_simp
  from hard_failure_not_retried [OF reach lt m f nok nb, of json_parse] s
  show ?thesis by simp
qed

text \<open>
  Claim C6, as stated: for every prompt, when \<^verbatim>\<open>stream_chat\<close> answers 409 and the idle
  probe that follows succeeds, the retry loop submits the same prompt again exactly once
  before the next \<^verbatim>\<open>stream_chat\<close>, so that streaming begins after exactly one
  re-submission. It fails when the backend rejects the re-submission: the loop waits and
  submits again, so two submissions precede the next \<^verbatim>\<open>stream_chat\<close>. And when the next
  \<^verbatim>\<open>stream_chat\<close> answers 409 again, streaming begins only after a second re-submission.
\<close>

theorem one_resubmission_counterexample:
  "outcome (rejecting_backend [SetChatMessage ''hi'', StreamChat]) = HttpResponse 409 None
   \<and> outcome (rejecting_backend [SetChatMessage ''hi'', StreamChat, SessionsCreate]) = HttpResponse 200 None
   \<and> history (snd (sendAndStream rejecting_backend ''hi'' 4 \<lparr>history = [], now = 0\<rparr>))
       = [SetChatMessage ''hi'', StreamChat, SessionsCreate, SetChatMessage ''hi'',
          SessionsCreate, SessionsCreate, SetChatMessage ''hi'', StreamChat]
   \<and> outcome (busy_twice_backend [SetChatMessage ''hi'', StreamChat]) = HttpResponse 409 None
   \<and> outcome (busy_twice_backend [SetChatMessage ''hi'', StreamChat, SessionsCreate]) = HttpResponse 200 None
   \<and> history (snd (sendAndStream busy_twice_backend ''hi'' 4 \<lparr>history = [], now = 0\<rparr>))
       = [SetChatMessage ''hi'', StreamChat, SessionsCreate, SetChatMessage ''hi'', StreamChat,
          SessionsCreate, SetChatMessage ''hi'', StreamChat]"
proof -
  let ?S = "SetChatMessage ''hi''"
  let ?w0 = "\<lparr>history = [], now = 0\<rparr>"
  have rej: "history (snd (sendAndStream rejecting_backend ''hi'' 4 ?w0))
       = [?S, StreamChat, SessionsCreate, ?S, SessionsCreate, SessionsCreate, ?S, StreamChat]"
  proof -
    let ?B = rejecting_backend
    let ?w2 = "\<lparr>history = [?S], now = 5\<rparr>"
    let ?w3 = "\<lparr>history = [?S, StreamChat], now = 10\<rparr>"
    let ?w4 = "\<lparr>history = [?S, StreamChat, SessionsCreate], now = 15\<rparr>"
    let ?w5 = "\<lparr>history = [?S, StreamChat, SessionsCreate, ?S], now = 20\<rparr>"
    let ?w6 = "\<lparr>history = [?S, StreamChat, SessionsCreate, ?S, SessionsCreate], now = 25\<rparr>"
    let ?w7 = "\<lparr>history = [?S, StreamChat, SessionsCreate, ?S, SessionsCreate, SessionsCreate], now = 30\<rparr>"
    let ?w8 = "\<lparr>history = [?S, StreamChat, SessionsCreate, ?S, SessionsCreate, SessionsCreate, ?S], now = 35\<rparr>"
    let ?w9 = "\<lparr>history = [?S, StreamChat, SessionsCreate, ?S, SessionsCreate, SessionsCreate, ?S, StreamChat],
                now = 40\<rparr>"
    have ok200: "ok 200" by (simp add: ok_def)
    have m0: "setMessage ?B ''hi'' (if 0 < (0::nat) then waitForAgentIdle ?B 30000 ?w0 else ?w0) = (True, ?w2)"
      by (simp add: setMessage_def fetch_def rejecting_backend_def ok_def)
    have f0: "fetch ?B StreamChat ?w2 = (HttpResponse 409 None, ?w3)"
      by (simp add: fetch_def rejecting_backend_def)
    have p3: "fetch_timeout ?B SessionsCreate 5000 ?w3 = (HttpResponse 200 None, ?w4)"
      by (simp add: fetch_timeout_def rejecting_backend_def)
    have i3: "waitForAgentIdle ?B 30000 ?w3 = ?w4"
      by (rule wait_idle_probe_ok[OF p3 ok200]) simp
    have m1': "setMessage ?B ''hi'' (waitForAgentIdle ?B 30000 ?w3) = (False, ?w5)"
      unfolding i3 by (simp add: setMessage_def fetch_def rejecting_backend_def ok_def)
    have m1: "setMessage ?B ''hi'' (if 0 < Suc 0 then waitForAgentIdle ?B 30000 ?w3 else ?w3) = (False, ?w5)"
      using m1' by simp
    have p5: "fetch_timeout ?B SessionsCreate 5000 ?w5 = (HttpResponse 200 None, ?w6)"
      by (simp add: fetch_timeout_def rejecting_backend_def)
    have i5: "waitForAgentIdle ?B 15000 ?w5 = ?w6"
      by (rule wait_idle_probe_ok[OF p5 ok200]) simp
    have p6: "fetch_timeout ?B SessionsCreate 5000 ?w6 = (HttpResponse 200 None, ?w7)"
      by (simp add: fetch_timeout_def rejecting_backend_def)
    have i6: "waitForAgentIdle ?B 30000 ?w6 = ?w7"
      by (rule wait_idle_probe_ok[OF p6 ok200]) simp
    have m2': "setMessage ?B ''hi'' (waitForAgentIdle ?B 30000 ?w6) = (True, ?w8)"
      unfolding i6 by (simp add: setMessage_def fetch_def rejecting_backend_def ok_def)
    have m2: "setMessage ?B ''hi'' (if 0 < Suc (Suc 0) then waitForAgentIdle ?B 30000 ?w6 else ?w6) = (True, ?w8)"
      using m2' by simp
    have f2: \<open>fetch ?B StreamChat ?w8 = (HttpResponse 200 (Some [''data: {"text_delta":"a"}'']), ?w9)\<close>
      by (simp add: fetch_def rejecting_backend_def)
    have "send_attempts ?B ''hi'' 4 0 ?w0 = send_attempts ?B ''hi'' 4 (Suc 0) ?w3"
      by (rule round_busy[OF _ m0 f0]) simp
    also have "\<dots> = send_attempts ?B ''hi'' 4 (Suc (Suc 0)) (waitForAgentIdle ?B 15000 ?w5)"
      by (rule round_rejected[OF _ m1]) simp
    also have "\<dots> = send_attempts ?B ''hi'' 4 (Suc (Suc 0)) ?w6"
      by (simp only: i5)
    also have \<open>\<dots> = (Inr (200, Some [''data: {"text_delta":"a"}'']), ?w9)\<close>
      by (rule round_streams[OF _ m2 f2 ok200]) simp
    finally show ?thesis by (simp add: sendAndStream_def)
  qed
  have twice: "history (snd (sendAndStream busy_twice_backend ''hi'' 4 ?w0))
       = [?S, StreamChat, SessionsCreate, ?S, StreamChat, SessionsCreate, ?S, StreamChat]"
  proof -
    let ?B = busy_twice_backend
    let ?w2 = "\<lparr>history = [?S], now = 5\<rparr>"
    let ?w3 = "\<lparr>history = [?S, StreamChat], now = 10\<rparr>"
    let ?w4 = "\<lparr>history = [?S, StreamChat, SessionsCreate], now = 15\<rparr>"
    let ?w5 = "\<lparr>history = [?S, StreamChat, SessionsCreate, ?S], now = 20\<rparr>"
    let ?w6 = "\<lparr>history = [?S, StreamChat, SessionsCreate, ?S, StreamChat], now = 25\<rparr>"
    let ?w7 = "\<lparr>history = [?S, StreamChat, SessionsCreate, ?S, StreamChat, SessionsCreate], now = 30\<rparr>"
    let ?w8 = "\<lparr>history = [?S, StreamChat, SessionsCreate, ?S, StreamChat, SessionsCreate, ?S], now = 35\<rparr>"
    let ?w9 = "\<lparr>history = [?S, StreamChat, SessionsCreate, ?S, StreamChat, SessionsCreate, ?S, StreamChat],
                now = 40\<rparr>"
    have ok200: "ok 200" by (simp add: ok_def)
    have m0: "setMessage ?B ''hi'' (if 0 < (0::nat) then waitForAgentIdle ?B 30000 ?w0 else ?w0) = (True, ?w2)"
      by (simp add: setMessage_def fetch_def busy_twice_backend_def replies_def ok_def)
    have f0: "fetch ?B StreamChat ?w2 = (HttpResponse 409 None, ?w3)"
      by (simp add: fetch_def busy_twice_backend_def replies_def)
    have p3: "fetch_timeout ?B SessionsCreate 5000 ?w3 = (HttpResponse 200 None, ?w4)"
      by (simp add: fetch_timeout_def busy_twice_backend_def replies_def)
    have i3: "waitForAgentIdle ?B 30000 ?w3 = ?w4"
      by (rule wait_idle_probe_ok[OF p3 ok200]) simp
    have m1': "setMessage ?B ''hi'' (waitForAgentIdle ?B 30000 ?w3) = (True, ?w5)"
      unfolding i3 by (simp add: setMessage_def fetch_def busy_twice_backend_def replies_def ok_def)
    have m1: "setMessage ?B ''hi'' (if 0 < Suc 0 then waitForAgentIdle ?B 30000 ?w3 else ?w3) = (True, ?w5)"
      using m1' by simp
    have f1: "fetch ?B StreamChat ?w5 = (HttpResponse 409 None, ?w6)"
      by (simp add: fetch_def busy_twice_backend_def replies_def)
    have p6: "fetch_timeout ?B SessionsCreate 5000 ?w6 = (HttpResponse 200 None, ?w7)"
      by (simp add: fetch_timeout_def busy_twice_backend_def replies_def)
    have i6: "waitForAgentIdle ?B 30000 ?w6 = ?w7"
      by (rule wait_idle_probe_ok[OF p6 ok200]) simp
    have m2': "setMessage ?B ''hi'' (waitForAgentIdle ?B 30000 ?w6) = (True, ?w8)"
      unfolding i6 by (simp add: setMessage_def fetch_def busy_twice_backend_def replies_def ok_def)
    have m2: "setMessage ?B ''hi'' (if 0 < Suc (Suc 0) then waitForAgentIdle ?B 30000 ?w6 else ?w6) = (True, ?w8)"
      using m2' by simp
    have f2: \<open>fetch ?B StreamChat ?w8 = (HttpResponse 200 (Some [''data: {"text_delta":"a"}'']), ?w9)\<close>
      by (simp add: fetch_def busy_twice_backend_def replies_def)
    have "send_attempts ?B ''hi'' 4 0 ?w0 = send_attempts ?B ''hi'' 4 (Suc 0) ?w3"
      by (rule round_busy[OF _ m0 f0]) simp
    also have "\<dots> = send_attempts ?B ''hi'' 4 (Suc (Suc 0)) ?w6"
      by (rule round_busy[OF _ m1 f1]) simp
    also have \<open>\<dots> = (Inr (200, Some [''data: {"text_delta":"a"}'']), ?w9)\<close>
      by (rule round_streams[OF _ m2 f2 ok200]) simp
    finally show ?thesis by (simp add: sendAndStream_def)
  qed
  have "outcome (rejecting_backend [?S, StreamChat]) = HttpResponse 409 None"
    by (simp add: rejecting_backend_def)
  moreover have "outcome (rejecting_backend [?S, StreamChat, SessionsCreate]) = HttpResponse 200 None"
    by (simp add: rejecting_backend_def)
  moreover have "outcome (busy_twice_backend [?S, StreamChat]) = HttpResponse 409 None"
    by (simp add: busy_twice_backend_def replies_def)
  moreover have "outcome (busy_twice_backend [?S, StreamChat, SessionsCreate]) = HttpResponse 200 None"
    by (simp add: busy_twice_backend_def replies_def)
  ultimately show ?thesis using rej twice by (intro conjI)
qed

text \<open>
  Claim C6, amended. For every prompt, when \<^verbatim>\<open>stream_chat\<close> answers 409, the idle probe
  that follows succeeds and the backend accepts the re-submission, the retry loop submits
  the same prompt again exactly once before the next \<^verbatim>\<open>stream_chat\<close>: the backend calls that
  follow the busy answer are one probe, one submission of that prompt and the next
  \<^verbatim>\<open>stream_chat\<close>. When that \<^verbatim>\<open>stream_chat\<close> succeeds, streaming begins after exactly this
  one re-submission.
\<close>

theorem busy_then_one_resubmission:
  assumes reach: "sendAndStream backend prompt maxRetries w0 = send_attempts backend prompt maxRetries attempt w"
      and lt: "Suc attempt < maxRetries"
      and m: "setMessage backend prompt (if 0 < attempt then waitForAgentIdle backend 30000 w else w) = (True, w2)"
      and f: "fetch backend StreamChat w2 = (HttpResponse 409 body, w3)"
      and probe: "fetch_timeout backend SessionsCreate 5000 w3 = (HttpResponse s b, w4)"
      and oks: "ok s"
      and m': "setMessage backend prompt w4 = (True, w5)"
  shows "(\<exists>rest. history (snd (sendAndStream backend prompt maxRetries w0))
                = history w3 @ [SessionsCreate, SetChatMessage prompt, StreamChat] @ rest)
       \<and> (\<forall>s' body' w6. fetch backend StreamChat w5 = (HttpResponse s' body', w6) \<and> ok s' \<longrightarrow>
              sendAndStream backend prompt maxRetries w0 = (Inr (s', body'), w6)
            \<and> history w6 = history w3 @ [SessionsCreate, SetChatMessage prompt, StreamChat]
            \<and> (\<forall>chunks. maxRetries = 4 \<and> body' = Some chunks \<longrightarrow>
                  handleStreamingCompletion backend parse prompt w0
                    = (EventStream (stream_completion parse chunks), w6)))"
proof -
  from lt have lt0: "attempt < maxRetries" by simp
  have w4: "waitForAgentIdle backend 30000 w3 = w4"
    by (rule wait_idle_probe_ok[OF probe oks]) simp
  have first: "send_attempts backend prompt maxRetries attempt w
      = send_attempts backend prompt maxRetries (Suc attempt) w3"
    by (simp add: send_attempts_unfold[OF lt0 m] f not_ok_409)
  have m2: "setMessage backend prompt (if 0 < Suc attempt then waitForAgentIdle backend 30000 w3 else w3) = (True, w5)"
    by (simp add: w4 m')
  note u = send_attempts_unfold[OF lt m2]
  have h5: "history w5 = history w3 @ [SessionsCreate, SetChatMessage prompt]"
    using fetch_timeout_history[OF probe] setMessage_history[OF m'] by simp
  obtain r w6 where g: "fetch backend StreamChat w5 = (r, w6)"
    by (cases "fetch backend StreamChat w5")
  have h6: "history w6 = history w3 @ [SessionsCreate, SetChatMessage prompt, StreamChat]"
    using fetch_history[OF g] h5 by simp
  have prefix: "\<exists>rest. history (snd (sendAndStream backend prompt maxRetries w0))
                = history w3 @ [SessionsCreate, SetChatMessage prompt, StreamChat] @ rest"
  proof (cases r)
    case (NetworkError e)
    with u g h6 show ?thesis by (simp add: reach first)
  next
    case (HttpResponse status bd)
    show ?thesis
    proof (cases "\<not> ok status \<and> status = 409")
      case False
      with u g h6 HttpResponse show ?thesis by (auto simp: reach first)
    next
      case True
      from send_attempts_extends[of backend prompt maxRetries "Suc (Suc attempt)" w6] obtain rest where
        "history (snd (send_attempts backend prompt maxRetries (Suc (Suc attempt)) w6)) = history w6 @ rest" ..
      with u g h6 HttpResponse True show ?thesis by (simp add: reach first)
    qed
  qed
  have begins: "sendAndStream backend prompt maxRetries w0 = (Inr (s', body'), w6')
            \<and> history w6' = history w3 @ [SessionsCreate, SetChatMessage prompt, StreamChat]
            \<and> (\<forall>chunks. maxRetries = 4 \<and> body' = Some chunks \<longrightarrow>
                  handleStreamingCompletion backend parse prompt w0
                    = (EventStream (stream_completion parse chunks), w6'))"
    if f': "fetch backend StreamChat w5 = (HttpResponse s' body', w6')" and oks': "ok s'" for s' body' w6'
  proof -
    have r: "sendAndStream backend prompt maxRetries w0 = (Inr (s', body'), w6')"
      by (simp add: reach first u f' oks')
    have h: "history w6' = history w3 @ [SessionsCreate, SetChatMessage prompt, StreamChat]"
      using fetch_history[OF f'] h5 by simp
    have "handleStreamingCompletion backend parse prompt w0 = (EventStream (stream_completion parse chunks), w6')"
      if "maxRetries = 4" "body' = Some chunks" for chunks
      using r[unfolded that] oks' by (simp add: handleStreamingCompletion_def)
    with r h show ?thesis by blast
  qed
  from prefix begins show ?thesis by blast
qed

theorem busy_then_one_resubmission_witness:
  \<open>handleStreamingCompletion busy_once_backend json_parse ''hi'' \<lparr>history = [], now = 0\<rparr>
     = (EventStream (stream_completion json_parse [''data: {"text_delta":"a"}'']),
        \<lparr>history = [SetChatMessage ''hi'', StreamChat, SessionsCreate, SetChatMessage ''hi'', StreamChat],
         now = 25\<rparr>)\<close>
proof -
  let ?w0 = "\<lparr>history = [], now = 0\<rparr>"
  let ?w2 = "\<lparr>history = [SetChatMessage ''hi''], now = 5\<rparr>"
  let ?w3 = "\<lparr>history = [SetChatMessage ''hi'', StreamChat], now = 10\<rparr>"
  let ?w4 = "\<lparr>history = [SetChatMessage ''hi'', StreamChat, SessionsCreate], now = 15\<rparr>"
  let ?w5 = "\<lparr>history = [SetChatMessage ''hi'', StreamChat, SessionsCreate, SetChatMessage ''hi''], now = 20\<rparr>"
  let ?w6 = "\<lparr>history = [SetChatMessage ''hi'', StreamChat, SessionsCreate, SetChatMessage ''hi'', StreamChat],
              now = 25\<rparr>"
  have reach: "sendAndStream busy_once_backend ''hi'' 4 ?w0 = send_attempts busy_once_backend ''hi'' 4 0 ?w0"
    by (simp add: sendAndStream_def)
  have lt: "Suc 0 < 4" by simp
  have m: "setMessage busy_once_backend ''hi'' (if 0 < (0::nat) then waitForAgentIdle busy_once_backend 30000 ?w0 else ?w0)
      = (True, ?w2)"
    by (simp add: setMessage_def fetch_def busy_once_backend_def replies_def ok_def)
  have f: "fetch busy_once_backend StreamChat ?w2 = (HttpResponse 409 None, ?w3)"
    by (simp add: fetch_def busy_once_backend_def replies_def)
  have probe: "fetch_timeout busy_once_backend SessionsCreate 5000 ?w3 = (HttpResponse 200 None, ?w4)"
    by (simp add: fetch_timeout_def busy_once_backend_def replies_def)
  have oks: "ok 200" by (simp add: ok_def)
  have m': "setMessage busy_once_backend ''hi'' ?w4 = (True, ?w5)"
    by (simp add: setMessage_def fetch_def busy_once_backend_def replies_def ok_def)
  have f': \<open>fetch busy_once_backend StreamChat ?w5 = (HttpResponse 200 (Some [''data: {"text_delta":"a"}'']), ?w6)\<close>
    by (simp add: fetch_def busy_once_backend_def replies_def)
  from busy_then_one_resubmission [OF reach lt m f probe oks m', of json_parse] f' oks
  show ?thesis by simp
qed

section \<open>Exhausted retries\<close>



end
